theory Spec2Isabelle
  imports Complex_Main
begin

section \<open>Python strings, integers and errors\<close>

text \<open>
  The training script \<^verbatim>\<open>examples/unconditional_image_generation/train_unconditional.py\<close>
  is embedded function by function. Every place where the Python raises is a branch that
  returns \<open>Inl\<close> of the error; Python's unbounded integers are \<open>int\<close>, whose \<open>div\<close> and
  \<open>mod\<close> round towards minus infinity exactly as \<^verbatim>\<open>//\<close> and \<^verbatim>\<open>%\<close> do (division by
  zero is written out as an error). \<open>NotFinite\<close> is not an exception: it stands for a float
  result that is \<^verbatim>\<open>inf\<close> or \<^verbatim>\<open>nan\<close>, which the real numbers used for tensor elements
  cannot hold.
\<close>

datatype py_error =
    IndexError
  | ValueError
  | ZeroDivisionError
  | RuntimeError
  | LoadStateError string
  | PipelineError
  | SaveError
  | TrackerError
  | NotFinite

text \<open>\<^verbatim>\<open>s.startswith(p)\<close> and \<^verbatim>\<open>s.endswith(p)\<close>.\<close>

definition startswith :: "string \<Rightarrow> string \<Rightarrow> bool" where
  "startswith s p = (take (length p) s = p)"

definition endswith :: "string \<Rightarrow> string \<Rightarrow> bool" where
  "endswith s p = (length p \<le> length s \<and> drop (length s - length p) s = p)"

text \<open>\<^verbatim>\<open>s.split(c)\<close> for a one-character separator: never empty, one more piece than
  there are separators.\<close>

fun split_sep :: "char \<Rightarrow> string \<Rightarrow> string list" where
  "split_sep c [] = [[]]"
| "split_sep c (x # xs) =
     (if x = c then [] # split_sep c xs
      else (case split_sep c xs of [] \<Rightarrow> [[x]] | p # ps \<Rightarrow> (x # p) # ps))"

text \<open>\<^verbatim>\<open>os.path.basename\<close> and \<^verbatim>\<open>os.path.join\<close> (POSIX, two arguments).\<close>

definition basename :: "string \<Rightarrow> string" where
  "basename p = rev (takeWhile (\<lambda>c. c \<noteq> CHR ''/'') (rev p))"

definition path_join :: "string \<Rightarrow> string \<Rightarrow> string" where
  "path_join a b =
     (if startswith b ''/'' then b
      else if a = [] \<or> endswith a ''/'' then a @ b
      else a @ ''/'' @ b)"

text \<open>
  \<^verbatim>\<open>int(s)\<close> on a string: surrounding white space (tab, line feed, vertical tab, form
  feed, carriage return, space) is dropped, one sign is allowed, and the rest is decimal
  digits in groups separated by single underscores. Strings are byte lists here, so only
  ASCII strings are covered.
\<close>

definition is_space :: "char \<Rightarrow> bool" where
  "is_space c = (let n = (of_char c :: nat) in (9 \<le> n \<and> n \<le> 13) \<or> n = 32)"

definition is_digit :: "char \<Rightarrow> bool" where
  "is_digit c = (let n = (of_char c :: nat) in 48 \<le> n \<and> n \<le> 57)"

definition strip :: "string \<Rightarrow> string" where
  "strip s = rev (dropWhile is_space (rev (dropWhile is_space s)))"

definition digits_value :: "string \<Rightarrow> int" where
  "digits_value ds = foldl (\<lambda>a c. 10 * a + (int (of_char c) - 48)) 0 ds"

definition py_int :: "string \<Rightarrow> py_error + int" where
  "py_int s =
     (let t = strip s;
          neg = (case t of [] \<Rightarrow> False | c # r \<Rightarrow> c = CHR ''-'');
          body = (case t of [] \<Rightarrow> [] | c # r \<Rightarrow> if c = CHR ''-'' \<or> c = CHR ''+'' then r else t);
          groups = split_sep (CHR ''_'') body
      in if list_all (\<lambda>g. g \<noteq> [] \<and> list_all is_digit g) groups
         then Inr ((if neg then - 1 else 1) * digits_value (concat groups))
         else Inl ValueError)"

section \<open>Steps per epoch\<close>

text \<open>
  \<^verbatim>\<open>num_update_steps_per_epoch = math.ceil(len(train_dataloader) / args.gradient_accumulation_steps)\<close>
  (line 626). The quotient is taken exactly; the rounding of Python's float division is
  not modelled.
\<close>

definition num_update_steps_per_epoch :: "int \<Rightarrow> int \<Rightarrow> py_error + int" where
  "num_update_steps_per_epoch len_dataloader accum =
     (if accum = 0 then Inl ZeroDivisionError else Inr (- ((- len_dataloader) div accum)))"

section \<open>Resuming from a checkpoint (lines 637 to 663)\<close>

text \<open>The sort key of line 648, also the step count of line 659:
  \<^verbatim>\<open>int(x.split("-")[1])\<close>.\<close>

definition checkpoint_step :: "string \<Rightarrow> py_error + int" where
  "checkpoint_step x =
     (case split_sep (CHR ''-'') x of
        _ # n # _ \<Rightarrow> py_int n
      | _ \<Rightarrow> Inl IndexError)"

text \<open>\<^verbatim>\<open>sorted(dirs, key=...)\<close> computes the key of every entry first, in list order, so
  the first entry whose key raises decides the error; the sort itself is stable.\<close>

fun with_keys :: "string list \<Rightarrow> py_error + (int \<times> string) list" where
  "with_keys [] = Inr []"
| "with_keys (d # ds) =
     (case checkpoint_step d of
        Inl e \<Rightarrow> Inl e
      | Inr k \<Rightarrow> (case with_keys ds of Inl e \<Rightarrow> Inl e | Inr r \<Rightarrow> Inr ((k, d) # r)))"

definition sorted_dirs :: "string list \<Rightarrow> py_error + string list" where
  "sorted_dirs dirs =
     (case with_keys dirs of Inl e \<Rightarrow> Inl e | Inr kd \<Rightarrow> Inr (map snd (sort_key fst kd)))"

text \<open>Lines 646 to 649; \<open>listing\<close> is what \<^verbatim>\<open>os.listdir(args.output_dir)\<close> returned.\<close>

definition latest_checkpoint :: "string list \<Rightarrow> py_error + string option" where
  "latest_checkpoint listing =
     (let dirs = filter (\<lambda>d. startswith d ''checkpoint'') listing in
      case sorted_dirs dirs of
        Inl e \<Rightarrow> Inl e
      | Inr ds \<Rightarrow> Inr (if length ds > 0 then Some (last ds) else None))"

text \<open>
  What lines 637 to 663 leave behind: the two counters, \<^verbatim>\<open>resume_step\<close> (bound only
  when a checkpoint was loaded), \<^verbatim>\<open>args.resume_from_checkpoint\<close> as the block leaves
  it, the directory given to \<^verbatim>\<open>accelerator.load_state\<close>, and what was printed.
\<close>

record resume_outcome =
  global_step :: int
  first_epoch :: int
  resume_step :: "int option"
  resume_from_checkpoint :: "string option"
  loaded_from :: "string option"
  printed :: "string list"

definition missing_message :: "string \<Rightarrow> string" where
  "missing_message r =
     ''Checkpoint '' @ [CHR 0x27] @ r @ [CHR 0x27] @ '' does not exist. Starting a new training run.''"

definition resuming_message :: "string \<Rightarrow> string" where
  "resuming_message path = ''Resuming from checkpoint '' @ path"

text \<open>
  \<open>load_state dir\<close> tells whether \<^verbatim>\<open>accelerator.load_state(dir)\<close> returns (it raises
  otherwise, for instance when the directory does not exist); the accelerate library is
  not part of the script, so it is a parameter. \<open>nupe\<close> is
  \<^verbatim>\<open>num_update_steps_per_epoch\<close>.
\<close>

definition resume ::
  "(string \<Rightarrow> bool) \<Rightarrow> string list \<Rightarrow> string \<Rightarrow> string option \<Rightarrow> int \<Rightarrow> int
     \<Rightarrow> py_error + resume_outcome" where
  "resume load_state listing output_dir rfc accum nupe =
     (let fresh = \<lparr>global_step = 0, first_epoch = 0, resume_step = None,
                   resume_from_checkpoint = rfc, loaded_from = None, printed = []\<rparr>
      in case rfc of
        None \<Rightarrow> Inr fresh
      | Some r \<Rightarrow>
          if r = [] then Inr fresh
          else
            (case (if r \<noteq> ''latest'' then Inr (Some (basename r)) else latest_checkpoint listing) of
               Inl e \<Rightarrow> Inl e
             | Inr None \<Rightarrow>
                 Inr (fresh\<lparr>resume_from_checkpoint := None, printed := [missing_message r]\<rparr>)
             | Inr (Some path) \<Rightarrow>
                 (let dir = path_join output_dir path in
                  if \<not> load_state dir then Inl (LoadStateError dir)
                  else
                    (case checkpoint_step path of
                       Inl e \<Rightarrow> Inl e
                     | Inr g \<Rightarrow>
                         if nupe = 0 then Inl ZeroDivisionError
                         else if nupe * accum = 0 then Inl ZeroDivisionError
                         else Inr \<lparr>global_step = g,
                                   first_epoch = g div nupe,
                                   resume_step = Some ((g * accum) mod (nupe * accum)),
                                   resume_from_checkpoint = rfc,
                                   loaded_from = Some dir,
                                   printed = [resuming_message path]\<rparr>))))"

section \<open>Tensors\<close>

text \<open>
  A tensor is its shape and its elements in row-major order. The element type is left
  open. \<^verbatim>\<open>.to(device)\<close> changes where a tensor is stored, not its elements, and is not
  modelled.
\<close>

record 'a tensor =
  shape :: "nat list"
  data :: "'a list"

definition well_formed :: "'a tensor \<Rightarrow> bool" where
  "well_formed t = (length (data t) = prod_list (shape t))"

text \<open>Row-major position of a multi-index, and the element there.\<close>

fun offset :: "nat list \<Rightarrow> nat list \<Rightarrow> nat" where
  "offset (s # ss) (i # js) = i * prod_list ss + offset ss js"
| "offset _ _ = 0"

definition valid_index :: "nat list \<Rightarrow> nat list \<Rightarrow> bool" where
  "valid_index sh idx = list_all2 (\<lambda>i s. i < s) idx sh"

definition tensor_get :: "'a tensor \<Rightarrow> nat list \<Rightarrow> 'a" where
  "tensor_get t idx = data t ! offset (shape t) idx"

text \<open>Indexing one element: a negative index counts from the end, as in Python and in
  torch's indexing by an index tensor.\<close>

definition py_index :: "'a list \<Rightarrow> int \<Rightarrow> py_error + 'a" where
  "py_index arr i =
     (if 0 \<le> i \<and> i < int (length arr) then Inr (arr ! nat i)
      else if - int (length arr) \<le> i \<and> i < 0 then Inr (arr ! nat (int (length arr) + i))
      else Inl IndexError)"

text \<open>\<^verbatim>\<open>arr[timesteps]\<close> for a 1-D index tensor.\<close>

fun index_all :: "'a list \<Rightarrow> int list \<Rightarrow> py_error + 'a list" where
  "index_all arr [] = Inr []"
| "index_all arr (t # ts) =
     (case py_index arr t of
        Inl e \<Rightarrow> Inl e
      | Inr v \<Rightarrow> (case index_all arr ts of Inl e \<Rightarrow> Inl e | Inr vs \<Rightarrow> Inr (v # vs)))"

text \<open>The loop of lines 51 and 52: \<^verbatim>\<open>while len(res.shape) < len(broadcast_shape): res = res[..., None]\<close>.
  Only the shape changes.\<close>

function append_dims :: "nat list \<Rightarrow> nat \<Rightarrow> nat list" where
  "append_dims sh k = (if length sh < k then append_dims (sh @ [1]) k else sh)"
  by pat_completeness auto
termination
  by (relation "measure (\<lambda>(sh, k). k - length sh)") auto

declare append_dims.simps [simp del]

text \<open>
  \<^verbatim>\<open>Tensor.expand\<close>. For shapes of equal rank, a dimension of size 1 is repeated, a
  dimension of the requested size is kept (each of its blocks expanded in turn), and
  anything else is an error; missing leading dimensions are added in front.
\<close>

definition chunks :: "nat \<Rightarrow> nat \<Rightarrow> 'a list \<Rightarrow> 'a list list" where
  "chunks c n xs = map (\<lambda>i. take c (drop (i * c) xs)) [0..<n]"

fun collect :: "(py_error + 'a) list \<Rightarrow> py_error + 'a list" where
  "collect [] = Inr []"
| "collect (r # rs) =
     (case r of
        Inl e \<Rightarrow> Inl e
      | Inr v \<Rightarrow> (case collect rs of Inl e \<Rightarrow> Inl e | Inr vs \<Rightarrow> Inr (v # vs)))"

fun expand_data :: "nat list \<Rightarrow> nat list \<Rightarrow> 'a list \<Rightarrow> py_error + 'a list" where
  "expand_data [] [] xs = Inr xs"
| "expand_data (s # ss) (d # ds) xs =
     (if s = 1 then
        (case expand_data ss ds xs of
           Inl e \<Rightarrow> Inl e
         | Inr ys \<Rightarrow> Inr (concat (replicate d ys)))
      else if s = d then
        (case collect (map (expand_data ss ds) (chunks (prod_list ss) s xs)) of
           Inl e \<Rightarrow> Inl e
         | Inr yss \<Rightarrow> Inr (concat yss))
      else Inl RuntimeError)"
| "expand_data _ _ xs = Inl RuntimeError"

definition expand :: "'a tensor \<Rightarrow> nat list \<Rightarrow> py_error + 'a tensor" where
  "expand t sizes =
     (if length sizes < length (shape t) then Inl RuntimeError
      else
        (let lead = take (length sizes - length (shape t)) sizes;
             rest = drop (length sizes - length (shape t)) sizes
         in case expand_data (shape t) rest (data t) of
              Inl e \<Rightarrow> Inl e
            | Inr ys \<Rightarrow> Inr \<lparr>shape = sizes, data = concat (replicate (prod_list lead) ys)\<rparr>))"

text \<open>
  Lines 38 to 53. \<open>to_float\<close> is what \<^verbatim>\<open>.float()\<close> of line 50 does to one element: the
  conversion to float32, which rounds an element that float32 cannot hold and leaves an
  element of a float32 tensor as it is.
\<close>

definition extract_into_tensor ::
  "('a \<Rightarrow> 'f) \<Rightarrow> 'a list \<Rightarrow> int list \<Rightarrow> nat list \<Rightarrow> py_error + 'f tensor" where
  "extract_into_tensor to_float arr timesteps broadcast_shape =
     (case index_all arr timesteps of
        Inl e \<Rightarrow> Inl e
      | Inr vs \<Rightarrow>
          expand \<lparr>shape = append_dims [length timesteps] (length broadcast_shape),
                  data = map to_float vs\<rparr>
            broadcast_shape)"

section \<open>The training objective (lines 700 to 712)\<close>

text \<open>
  Tensor elements are real numbers here: the rounding of float arithmetic is not
  modelled. \<^verbatim>\<open>noise_scheduler.alphas_cumprod\<close> is a float32 tensor, so \<^verbatim>\<open>.float()\<close>
  leaves its elements as they are. Where the float result would be \<^verbatim>\<open>inf\<close> or \<^verbatim>\<open>nan\<close> (a division by
  zero, the mean of no elements) the model returns \<open>Inl NotFinite\<close>.
  Binary operators broadcast: shapes are padded with leading ones to a common rank and
  every dimension of size 1 is repeated.
\<close>

fun broadcast_shape_of :: "nat list \<Rightarrow> nat list \<Rightarrow> py_error + nat list" where
  "broadcast_shape_of [] [] = Inr []"
| "broadcast_shape_of (a # as) (b # bs) =
     (if a = b \<or> b = 1 then
        (case broadcast_shape_of as bs of Inl e \<Rightarrow> Inl e | Inr r \<Rightarrow> Inr (a # r))
      else if a = 1 then
        (case broadcast_shape_of as bs of Inl e \<Rightarrow> Inl e | Inr r \<Rightarrow> Inr (b # r))
      else Inl RuntimeError)"
| "broadcast_shape_of _ _ = Inl RuntimeError"

definition pad_left :: "nat \<Rightarrow> nat list \<Rightarrow> nat list" where
  "pad_left k sh = replicate (k - length sh) 1 @ sh"

definition broadcast2 :: "('a \<Rightarrow> 'b \<Rightarrow> 'c) \<Rightarrow> 'a tensor \<Rightarrow> 'b tensor \<Rightarrow> py_error + 'c tensor" where
  "broadcast2 f x y =
     (let k = max (length (shape x)) (length (shape y));
          sx = pad_left k (shape x);
          sy = pad_left k (shape y)
      in case broadcast_shape_of sx sy of
           Inl e \<Rightarrow> Inl e
         | Inr sh \<Rightarrow>
             (case expand_data sx sh (data x) of
                Inl e \<Rightarrow> Inl e
              | Inr dx \<Rightarrow>
                  (case expand_data sy sh (data y) of
                     Inl e \<Rightarrow> Inl e
                   | Inr dy \<Rightarrow> Inr \<lparr>shape = sh, data = map2 f dx dy\<rparr>)))"

text \<open>\<^verbatim>\<open>t.mean()\<close> and \<^verbatim>\<open>F.mse_loss\<close> with \<^verbatim>\<open>reduction="none"\<close> and with the default
  \<^verbatim>\<open>reduction="mean"\<close>.\<close>

definition mean :: "real tensor \<Rightarrow> py_error + real" where
  "mean t = (if data t = [] then Inl NotFinite
             else Inr (sum_list (data t) / real (length (data t))))"

definition mse_loss_none :: "real tensor \<Rightarrow> real tensor \<Rightarrow> py_error + real tensor" where
  "mse_loss_none input target = broadcast2 (\<lambda>a b. (a - b)\<^sup>2) input target"

definition mse_loss :: "real tensor \<Rightarrow> real tensor \<Rightarrow> py_error + real" where
  "mse_loss input target =
     (case mse_loss_none input target of Inl e \<Rightarrow> Inl e | Inr t \<Rightarrow> mean t)"

text \<open>\<^verbatim>\<open>alpha_t / (1 - alpha_t)\<close> (line 706): both sides have the shape of \<open>alpha_t\<close>.\<close>

definition snr_weights :: "real tensor \<Rightarrow> py_error + real tensor" where
  "snr_weights alpha_t =
     (if list_ex (\<lambda>a. 1 - a = 0) (data alpha_t) then Inl NotFinite
      else Inr \<lparr>shape = shape alpha_t, data = map (\<lambda>a. a / (1 - a)) (data alpha_t)\<rparr>)"

definition training_loss ::
  "string \<Rightarrow> real list \<Rightarrow> real tensor \<Rightarrow> real tensor \<Rightarrow> real tensor \<Rightarrow> int list
     \<Rightarrow> py_error + real" where
  "training_loss prediction_type alphas_cumprod model_output noise clean_images timesteps =
     (if prediction_type = ''epsilon'' then mse_loss model_output noise
      else if prediction_type = ''sample'' then
        (case shape clean_images of
           [] \<Rightarrow> Inl IndexError
         | b # _ \<Rightarrow>
             (case extract_into_tensor (\<lambda>x. x) alphas_cumprod timesteps [b, 1, 1, 1] of
                Inl e \<Rightarrow> Inl e
              | Inr alpha_t \<Rightarrow>
                  (case snr_weights alpha_t of
                     Inl e \<Rightarrow> Inl e
                   | Inr w \<Rightarrow>
                       (case mse_loss_none model_output clean_images of
                          Inl e \<Rightarrow> Inl e
                        | Inr sq \<Rightarrow>
                            (case broadcast2 (\<lambda>a b. a * b) w sq of
                               Inl e \<Rightarrow> Inl e
                             | Inr loss \<Rightarrow> mean loss)))))
      else Inl ValueError)"

section \<open>The body of the training loop (lines 672 to 740)\<close>

text \<open>The command-line arguments the loop and the blocks after it read.\<close>

record args =
  gradient_accumulation_steps :: int
  use_ema :: bool
  checkpointing_steps :: int
  num_epochs :: int
  save_images_epochs :: int
  save_model_epochs :: int
  eval_batch_size :: int
  ddpm_num_inference_steps :: int
  push_to_hub :: bool
  evaluate :: bool

text \<open>
  Each pass through the body of the loop of line 672 leaves one entry: the batch, whether
  it was skipped by line 674, and what was done with it, in program order.
\<close>

datatype action =
    Forward
  | Backward
  | ClipGradNorm real
  | OptimizerStep
  | LrSchedulerStep
  | ZeroGrad
  | EmaStep
  | GlobalStepIncrement
  | SaveState int
  | Log int

record 'b micro_step =
  batch :: 'b
  skipped :: bool
  actions :: "action list"

record 'b loop_state =
  accelerator_step :: int
  train_global_step :: int
  trace :: "'b micro_step list"

text \<open>
  The accelerate library is not part of the script; its gradient accumulation is modelled
  as the library documents it. Entering \<^verbatim>\<open>accelerator.accumulate(model)\<close> sets
  \<^verbatim>\<open>sync_gradients\<close>: on the last batch of the dataloader the counter is reset and
  gradients are synchronised, otherwise the counter is advanced and gradients are
  synchronised when it is a multiple of the accumulation factor. This is what makes an
  epoch \<^verbatim>\<open>ceil(len(train_dataloader) / gradient_accumulation_steps)\<close> optimizer steps
  long, the number line 626 computes. One process is modelled.
\<close>

definition do_sync :: "int \<Rightarrow> bool \<Rightarrow> int \<Rightarrow> py_error + (int \<times> bool)" where
  "do_sync accum end_of_dataloader step =
     (if end_of_dataloader then Inr (0, True)
      else if accum = 0 then Inl ZeroDivisionError
      else Inr (step + 1, (step + 1) mod accum = 0))"

text \<open>The prepared optimizer and scheduler do nothing unless gradients are being
  synchronised.\<close>

definition optimizer_step :: "bool \<Rightarrow> action list" where
  "optimizer_step sync_gradients = (if sync_gradients then [OptimizerStep] else [])"

definition lr_scheduler_step :: "bool \<Rightarrow> action list" where
  "lr_scheduler_step sync_gradients = (if sync_gradients then [LrSchedulerStep] else [])"

definition optimizer_zero_grad :: "bool \<Rightarrow> action list" where
  "optimizer_zero_grad sync_gradients = (if sync_gradients then [ZeroGrad] else [])"

text \<open>
  Lines 680 to 739 for one batch. \<open>Forward\<close> stands for lines 680 to 712 (noise,
  timesteps, the noisy images, the network and the loss); the progress bar is left out.
\<close>

definition train_step ::
  "args \<Rightarrow> bool \<Rightarrow> 'b \<Rightarrow> bool \<Rightarrow> 'b loop_state \<Rightarrow> py_error + 'b loop_state" where
  "train_step a is_main_process b end_of_dataloader s =
     (case do_sync (gradient_accumulation_steps a) end_of_dataloader (accelerator_step s) of
        Inl e \<Rightarrow> Inl e
      | Inr (step', sync_gradients) \<Rightarrow>
          (let inside = [Forward, Backward]
                 @ (if sync_gradients then [ClipGradNorm 1] else [])
                 @ optimizer_step sync_gradients
                 @ lr_scheduler_step sync_gradients
                 @ optimizer_zero_grad sync_gradients
           in if sync_gradients then
                (let g = train_global_step s + 1 in
                 if checkpointing_steps a = 0 then Inl ZeroDivisionError
                 else Inr \<lparr>accelerator_step = step', train_global_step = g,
                           trace = trace s @ [\<lparr>batch = b, skipped = False,
                             actions = inside
                               @ (if use_ema a then [EmaStep] else [])
                               @ [GlobalStepIncrement]
                               @ (if g mod checkpointing_steps a = 0 \<and> is_main_process
                                  then [SaveState g] else [])
                               @ [Log g]\<rparr>]\<rparr>)
              else Inr \<lparr>accelerator_step = step', train_global_step = train_global_step s,
                        trace = trace s @ [\<lparr>batch = b, skipped = False,
                          actions = inside @ [Log (train_global_step s)]\<rparr>]\<rparr>))"

text \<open>
  The loop of line 672 from position \<open>i\<close> on. \<open>skipping\<close> is
  \<^verbatim>\<open>args.resume_from_checkpoint and epoch == first_epoch\<close>; the last batch of the list is
  the one on which the dataloader reports its end.
\<close>

fun train_batches ::
  "args \<Rightarrow> bool \<Rightarrow> bool \<Rightarrow> int \<Rightarrow> nat \<Rightarrow> 'b list \<Rightarrow> 'b loop_state
     \<Rightarrow> py_error + 'b loop_state" where
  "train_batches a is_main_process skipping rstep i [] s = Inr s"
| "train_batches a is_main_process skipping rstep i (b # bs) s =
     (if skipping \<and> int i < rstep then
        (if gradient_accumulation_steps a = 0 then Inl ZeroDivisionError
         else train_batches a is_main_process skipping rstep (Suc i) bs
                (s\<lparr>trace := trace s @ [\<lparr>batch = b, skipped = True, actions = []\<rparr>]\<rparr>))
      else
        (case train_step a is_main_process b (bs = []) s of
           Inl e \<Rightarrow> Inl e
         | Inr s' \<Rightarrow> train_batches a is_main_process skipping rstep (Suc i) bs s'))"

text \<open>Proof device: the loop of line 672 on batches none of which is the dataloader's
  last.\<close>

fun train_inner ::
  "args \<Rightarrow> bool \<Rightarrow> bool \<Rightarrow> int \<Rightarrow> nat \<Rightarrow> 'b list \<Rightarrow> 'b loop_state
     \<Rightarrow> py_error + 'b loop_state" where
  "train_inner a is_main_process skipping rstep i [] s = Inr s"
| "train_inner a is_main_process skipping rstep i (b # bs) s =
     (if skipping \<and> int i < rstep then
        (if gradient_accumulation_steps a = 0 then Inl ZeroDivisionError
         else train_inner a is_main_process skipping rstep (Suc i) bs
                (s\<lparr>trace := trace s @ [\<lparr>batch = b, skipped = True, actions = []\<rparr>]\<rparr>))
      else
        (case train_step a is_main_process b False s of
           Inl e \<Rightarrow> Inl e
         | Inr s' \<Rightarrow> train_inner a is_main_process skipping rstep (Suc i) bs s'))"

text \<open>What an optimization step consists of, and which entries made one.\<close>

definition is_update :: "action \<Rightarrow> bool" where
  "is_update x =
     (case x of
        ClipGradNorm _ \<Rightarrow> True | OptimizerStep \<Rightarrow> True | LrSchedulerStep \<Rightarrow> True
      | ZeroGrad \<Rightarrow> True | EmaStep \<Rightarrow> True | GlobalStepIncrement \<Rightarrow> True
      | _ \<Rightarrow> False)"

definition update_actions :: "'b micro_step \<Rightarrow> action list" where
  "update_actions m = filter is_update (actions m)"

definition optimization_step :: "args \<Rightarrow> action list" where
  "optimization_step a =
     [ClipGradNorm 1, OptimizerStep, LrSchedulerStep, ZeroGrad]
       @ (if use_ema a then [EmaStep] else []) @ [GlobalStepIncrement]"

definition stepped :: "'b micro_step \<Rightarrow> bool" where
  "stepped m = (OptimizerStep \<in> set (actions m))"

section \<open>Sampling and saving after an epoch (lines 797 to 857)\<close>

text \<open>The live parameters of the network and the state of the EMA model.\<close>

record 'p weights =
  live :: 'p
  shadow_params :: 'p
  temp_stored_params :: "'p option"

text \<open>Modelled from the spec: \<^verbatim>\<open>EMAModel.store\<close>, \<^verbatim>\<open>copy_to\<close> and \<^verbatim>\<open>restore\<close> of
  \<^verbatim>\<open>diffusers.training_utils\<close>, which the script imports: save the live parameters, put
  the shadow in their place, put the saved ones back.\<close>

definition store :: "'p weights \<Rightarrow> 'p weights" where
  "store w = w\<lparr>temp_stored_params := Some (live w)\<rparr>"

definition copy_to :: "'p weights \<Rightarrow> 'p weights" where
  "copy_to w = w\<lparr>live := shadow_params w\<rparr>"

definition restore :: "'p weights \<Rightarrow> py_error + 'p weights" where
  "restore w =
     (case temp_stored_params w of
        None \<Rightarrow> Inl RuntimeError
      | Some p \<Rightarrow> Inr (w\<lparr>live := p, temp_stored_params := None\<rparr>))"

text \<open>
  Lines 799 to 836. The parameters are the collaborators the block calls. \<open>pipeline\<close>
  is the \<^verbatim>\<open>DDPMPipeline\<close> call: it is given the network's parameters, the scheduler,
  the generator, the batch size and the number of inference steps, and, being library
  code, it can also read and advance torch's default generator, whose state \<open>rng\<close> the
  training loop's own draws have left behind; it returns its outcome and the default
  generator's new state. \<open>manual_seed\<close> makes the generator; \<open>log_images\<close> tells
  whether the tracker returns for the images, the epoch and the step count. An exception
  leaves the block at once, so the weights are returned as they are at that moment.
\<close>

definition sample_images ::
  "args \<Rightarrow> ('p \<Rightarrow> 'c \<Rightarrow> 'r \<Rightarrow> 'r \<Rightarrow> int \<Rightarrow> int \<Rightarrow> (py_error + 'i) \<times> 'r) \<Rightarrow> 'c \<Rightarrow> (int \<Rightarrow> 'r)
     \<Rightarrow> ('i \<Rightarrow> int \<Rightarrow> int \<Rightarrow> bool) \<Rightarrow> int \<Rightarrow> int \<Rightarrow> 'r \<Rightarrow> 'p weights
     \<Rightarrow> 'p weights \<times> 'r \<times> (py_error + 'i)" where
  "sample_images a pipeline noise_scheduler manual_seed log_images epoch g rng w =
     (let w1 = (if use_ema a then copy_to (store w) else w);
          generator = manual_seed 0
      in case pipeline (live w1) noise_scheduler generator rng (eval_batch_size a)
                (ddpm_num_inference_steps a) of
           (Inl e, rng') \<Rightarrow> (w1, rng', Inl e)
         | (Inr images, rng') \<Rightarrow>
             (case (if use_ema a then restore w1 else Inr w1) of
                Inl e \<Rightarrow> (w1, rng', Inl e)
              | Inr w2 \<Rightarrow>
                  if log_images images epoch g then (w2, rng', Inr images)
                  else (w2, rng', Inl TrackerError)))"

text \<open>Lines 839 to 857; \<open>save_pretrained\<close> and \<open>push\<close> tell whether saving the
  pipeline and pushing to the hub return.\<close>

definition save_model ::
  "args \<Rightarrow> ('p \<Rightarrow> 'c \<Rightarrow> bool) \<Rightarrow> 'c \<Rightarrow> bool \<Rightarrow> 'p weights \<Rightarrow> 'p weights \<times> (py_error + unit)" where
  "save_model a save_pretrained noise_scheduler push w =
     (let w1 = (if use_ema a then copy_to (store w) else w)
      in if \<not> save_pretrained (live w1) noise_scheduler then (w1, Inl SaveError)
         else
           (case (if use_ema a then restore w1 else Inr w1) of
              Inl e \<Rightarrow> (w1, Inl e)
            | Inr w2 \<Rightarrow>
                if push_to_hub a \<and> \<not> push then (w2, Inl SaveError) else (w2, Inr ())))"

text \<open>Lines 797 to 857 for one epoch; the images are returned when they were sampled.\<close>

definition end_of_epoch ::
  "args \<Rightarrow> bool \<Rightarrow> ('p \<Rightarrow> 'c \<Rightarrow> 'r \<Rightarrow> 'r \<Rightarrow> int \<Rightarrow> int \<Rightarrow> (py_error + 'i) \<times> 'r) \<Rightarrow> 'c \<Rightarrow> (int \<Rightarrow> 'r)
     \<Rightarrow> ('i \<Rightarrow> int \<Rightarrow> int \<Rightarrow> bool) \<Rightarrow> ('p \<Rightarrow> 'c \<Rightarrow> bool) \<Rightarrow> bool \<Rightarrow> int \<Rightarrow> int \<Rightarrow> 'r
     \<Rightarrow> 'p weights \<Rightarrow> 'p weights \<times> 'r \<times> (py_error + 'i option)" where
  "end_of_epoch a is_main_process pipeline noise_scheduler manual_seed log_images
       save_pretrained push epoch g rng w =
     (if \<not> is_main_process then (w, rng, Inr None)
      else if save_images_epochs a = 0 then (w, rng, Inl ZeroDivisionError)
      else
        (case (if epoch mod save_images_epochs a = 0 \<or> epoch = num_epochs a - 1
               then (case sample_images a pipeline noise_scheduler manual_seed log_images
                            epoch g rng w of
                       (w', rng', Inl e) \<Rightarrow> (w', rng', Inl e)
                     | (w', rng', Inr images) \<Rightarrow> (w', rng', Inr (Some images)))
               else (w, rng, Inr None)) of
           (w', rng', Inl e) \<Rightarrow> (w', rng', Inl e)
         | (w', rng', Inr images) \<Rightarrow>
             if save_model_epochs a = 0 then (w', rng', Inl ZeroDivisionError)
             else if epoch mod save_model_epochs a = 0 \<or> epoch = num_epochs a - 1 then
               (case save_model a save_pretrained noise_scheduler push w' of
                  (w'', Inl e) \<Rightarrow> (w'', rng', Inl e)
                | (w'', Inr _) \<Rightarrow> (w'', rng', Inr images))
             else (w', rng', Inr images)))"

section \<open>Evaluation after an epoch (lines 747 to 792)\<close>

text \<open>
  \<open>eval_losses\<close> stands for the loop of lines 755 to 784: the losses of the evaluation
  batches under the network's parameters, drawn with the default generator, or the
  exception the loop raises. Line 787 divides their sum by their number.
\<close>

definition evaluation ::
  "args \<Rightarrow> ('p \<Rightarrow> 'r \<Rightarrow> (py_error + real list) \<times> 'r) \<Rightarrow> 'p \<Rightarrow> 'r
     \<Rightarrow> 'r \<times> (py_error + real option)" where
  "evaluation a eval_losses params rng =
     (if \<not> evaluate a then (rng, Inr None)
      else
        (case eval_losses params rng of
           (Inl e, rng') \<Rightarrow> (rng', Inl e)
         | (Inr losses, rng') \<Rightarrow>
             if length losses = 0 then (rng', Inl ZeroDivisionError)
             else (rng', Inr (Some (sum_list losses / real (length losses))))))"

section \<open>The training loop (lines 667 to 857)\<close>

text \<open>What the blocks after an epoch work on: the weights and torch's default
  generator.\<close>

record ('p, 'r) world =
  weights :: "'p weights"
  torch_rng :: 'r

text \<open>Lines 743 to 857: evaluation, then sampling and saving.\<close>

definition after_epoch ::
  "args \<Rightarrow> bool \<Rightarrow> ('p \<Rightarrow> 'r \<Rightarrow> (py_error + real list) \<times> 'r)
     \<Rightarrow> ('p \<Rightarrow> 'c \<Rightarrow> 'r \<Rightarrow> 'r \<Rightarrow> int \<Rightarrow> int \<Rightarrow> (py_error + 'i) \<times> 'r) \<Rightarrow> 'c \<Rightarrow> (int \<Rightarrow> 'r)
     \<Rightarrow> ('i \<Rightarrow> int \<Rightarrow> int \<Rightarrow> bool) \<Rightarrow> ('p \<Rightarrow> 'c \<Rightarrow> bool) \<Rightarrow> bool \<Rightarrow> nat \<Rightarrow> int
     \<Rightarrow> ('p, 'r) world \<Rightarrow> ('p, 'r) world \<times> (py_error + unit)" where
  "after_epoch a is_main_process eval_losses pipeline noise_scheduler manual_seed log_images
       save_pretrained push epoch g x =
     (case evaluation a eval_losses (live (weights x)) (torch_rng x) of
        (rng1, Inl e) \<Rightarrow> (x\<lparr>torch_rng := rng1\<rparr>, Inl e)
      | (rng1, Inr _) \<Rightarrow>
          (case end_of_epoch a is_main_process pipeline noise_scheduler manual_seed log_images
                  save_pretrained push (int epoch) g rng1 (weights x) of
             (w', rng2, Inl e) \<Rightarrow> (\<lparr>weights = w', torch_rng = rng2\<rparr>, Inl e)
           | (w', rng2, Inr _) \<Rightarrow> (\<lparr>weights = w', torch_rng = rng2\<rparr>, Inr ())))"

text \<open>
  The loop of line 667 over the epochs still to run. \<open>dataloader e\<close> is the list of
  batches this run's dataloader yields in epoch \<open>e\<close>. \<open>learn\<close> is what the
  collaborators of one pass through the loop body (the network, the optimizer, the EMA
  model, the random draws) do to the weights and to the default generator; it is applied
  for the entries of the epoch in order. \<open>tail\<close> is what follows the batches of an
  epoch; an exception there ends the run.
\<close>

fun train_epochs ::
  "args \<Rightarrow> bool \<Rightarrow> (nat \<Rightarrow> 'b list) \<Rightarrow> ('b micro_step \<Rightarrow> 'w \<Rightarrow> 'w)
     \<Rightarrow> (nat \<Rightarrow> int \<Rightarrow> 'w \<Rightarrow> 'w \<times> (py_error + unit)) \<Rightarrow> bool \<Rightarrow> nat \<Rightarrow> int \<Rightarrow> nat list
     \<Rightarrow> 'b loop_state \<times> 'w \<Rightarrow> py_error + 'b loop_state \<times> 'w" where
  "train_epochs a is_main_process dataloader learn tail resumed fst_epoch rstep [] sx = Inr sx"
| "train_epochs a is_main_process dataloader learn tail resumed fst_epoch rstep (epoch # es) sx =
     (case train_batches a is_main_process (resumed \<and> epoch = fst_epoch) rstep 0
             (dataloader epoch) (fst sx) of
        Inl e \<Rightarrow> Inl e
      | Inr s' \<Rightarrow>
          (case tail epoch (train_global_step s')
                  (foldl (\<lambda>x m. learn m x) (snd sx) (drop (length (trace (fst sx))) (trace s'))) of
             (x', Inl e) \<Rightarrow> Inl e
           | (x', Inr _) \<Rightarrow>
               train_epochs a is_main_process dataloader learn tail resumed fst_epoch rstep es
                 (s', x')))"

text \<open>Lines 667 to 857 from \<^verbatim>\<open>global_step = g\<close> and the world \<open>x\<close>.\<close>

definition train ::
  "args \<Rightarrow> bool \<Rightarrow> (nat \<Rightarrow> 'b list) \<Rightarrow> ('b micro_step \<Rightarrow> ('p, 'r) world \<Rightarrow> ('p, 'r) world)
     \<Rightarrow> ('p \<Rightarrow> 'r \<Rightarrow> (py_error + real list) \<times> 'r)
     \<Rightarrow> ('p \<Rightarrow> 'c \<Rightarrow> 'r \<Rightarrow> 'r \<Rightarrow> int \<Rightarrow> int \<Rightarrow> (py_error + 'i) \<times> 'r) \<Rightarrow> 'c \<Rightarrow> (int \<Rightarrow> 'r)
     \<Rightarrow> ('i \<Rightarrow> int \<Rightarrow> int \<Rightarrow> bool) \<Rightarrow> ('p \<Rightarrow> 'c \<Rightarrow> bool) \<Rightarrow> bool
     \<Rightarrow> bool \<Rightarrow> nat \<Rightarrow> int \<Rightarrow> int \<Rightarrow> ('p, 'r) world
     \<Rightarrow> py_error + 'b loop_state \<times> ('p, 'r) world" where
  "train a is_main_process dataloader learn eval_losses pipeline noise_scheduler manual_seed
       log_images save_pretrained push resumed fst_epoch rstep g x =
     train_epochs a is_main_process dataloader learn
       (after_epoch a is_main_process eval_losses pipeline noise_scheduler manual_seed
          log_images save_pretrained push)
       resumed fst_epoch rstep [fst_epoch ..< nat (num_epochs a)]
       (\<lparr>accelerator_step = 0, train_global_step = g, trace = []\<rparr>, x)"

section \<open>Resuming: the position recomputed from the step count\<close>

text \<open>
  C3, as the code has it. When a checkpoint was loaded, \<^verbatim>\<open>global_step\<close> is the number
  read from the checkpoint's name, \<^verbatim>\<open>first_epoch\<close> is \<^verbatim>\<open>global_step\<close> divided by
  the optimizer steps per epoch (the step count is not multiplied by the accumulation
  factor first), and \<^verbatim>\<open>resume_step\<close> is \<^verbatim>\<open>global_step * accum\<close> modulo
  \<^verbatim>\<open>steps_per_epoch * accum\<close>. For a positive accumulation factor the pair determines
  the step count: \<^verbatim>\<open>global_step = first_epoch * steps_per_epoch + resume_step div accum\<close>.
\<close>

theorem resume_position:
  assumes res: "resume load_state listing output_dir rfc accum nupe = Inr r"
      and loaded: "loaded_from r \<noteq> None"
  shows "first_epoch r = global_step r div nupe \<and>
         resume_step r = Some ((global_step r * accum) mod (nupe * accum)) \<and>
         nupe \<noteq> 0 \<and> accum \<noteq> 0 \<and>
         (\<exists>path. loaded_from r = Some (path_join output_dir path) \<and>
                 checkpoint_step path = Inr (global_step r)) \<and>
         (0 < accum \<longrightarrow> resume_step r = Some ((global_step r mod nupe) * accum) \<and>
            global_step r = first_epoch r * nupe + ((global_step r * accum) mod (nupe * accum)) div accum)"
proof -
  from res loaded obtain path where
      ld: "loaded_from r = Some (path_join output_dir path)"
    and cs: "checkpoint_step path = Inr (global_step r)"
    and nz: "nupe \<noteq> 0" "nupe * accum \<noteq> 0"
    and fe: "first_epoch r = global_step r div nupe"
    and rs: "resume_step r = Some ((global_step r * accum) mod (nupe * accum))"
    by (auto simp: resume_def Let_def split: option.splits if_splits sum.splits)
  have az: "accum \<noteq> 0" using nz by auto
  have m: "0 < accum \<Longrightarrow> (global_step r * accum) mod (nupe * accum) = (global_step r mod nupe) * accum"
    by (simp add: mult_mod_left mult.commute)
  have "0 < accum \<Longrightarrow> global_step r = first_epoch r * nupe + ((global_step r * accum) mod (nupe * accum)) div accum"
    using fe m by simp
  with ld cs nz az fe rs m show ?thesis by auto
qed

text \<open>The theorem at a run of 5 optimizer steps per epoch, accumulation factor 2,
  resumed at step 7: epoch 1, batch 4.\<close>

theorem resume_position_witness:
  "first_epoch (projr (resume (\<lambda>_. True) [] ''out'' (Some ''checkpoint-7'') 2 5)) = 1 \<and>
   resume_step (projr (resume (\<lambda>_. True) [] ''out'' (Some ''checkpoint-7'') 2 5)) = Some 4 \<and>
   global_step (projr (resume (\<lambda>_. True) [] ''out'' (Some ''checkpoint-7'') 2 5)) = 1 * 5 + 4 div 2"
proof -
  let ?r = "\<lparr>global_step = 7, first_epoch = 1, resume_step = Some 4,
             resume_from_checkpoint = Some ''checkpoint-7'',
             loaded_from = Some ''out/checkpoint-7'',
             printed = [''Resuming from checkpoint checkpoint-7'']\<rparr>"
  have run: "resume (\<lambda>_. True) [] ''out'' (Some ''checkpoint-7'') 2 5 = Inr ?r"
    by code_simp
  have ld: "loaded_from ?r \<noteq> None" by simp
  from resume_position [OF run ld] show ?thesis unfolding run by simp
qed

text \<open>C3 as the specification words it, \<^verbatim>\<open>first_epoch = G * accum div steps_per_epoch\<close>,
  fails: at step 10 with accumulation factor 2 and 5 steps per epoch the code resumes in
  epoch 2, not in epoch 4.\<close>

theorem first_epoch_scaled_counterexample:
  "\<not> isl (resume (\<lambda>_. True) [] ''out'' (Some ''checkpoint-10'') 2 5) \<and>
   global_step (projr (resume (\<lambda>_. True) [] ''out'' (Some ''checkpoint-10'') 2 5)) = 10 \<and>
   first_epoch (projr (resume (\<lambda>_. True) [] ''out'' (Some ''checkpoint-10'') 2 5)) \<noteq>
     global_step (projr (resume (\<lambda>_. True) [] ''out'' (Some ''checkpoint-10'') 2 5)) * 2 div 5"
  by code_simp

section \<open>Resuming: the latest checkpoint\<close>

lemma with_keys_total:
  "list_all (\<lambda>d. \<not> isl (checkpoint_step d)) ds \<Longrightarrow>
   with_keys ds = Inr (map (\<lambda>d. (projr (checkpoint_step d), d)) ds)"
  by (induction ds) (auto split: sum.splits)

lemma sorted_le_last:
  fixes xs :: "int list"
  shows "sorted xs \<Longrightarrow> x \<in> set xs \<Longrightarrow> x \<le> last xs"
  by (induction xs) auto

lemma sort_key_nonempty: "xs \<noteq> [] \<Longrightarrow> sort_key f xs \<noteq> []"
  by (metis length_sort length_0_conv)

lemma last_sort_key:
  fixes f :: "'a \<Rightarrow> int"
  assumes "xs \<noteq> []"
  shows "last (sort_key f xs) \<in> set xs \<and> (\<forall>x \<in> set xs. f x \<le> f (last (sort_key f xs)))"
proof -
  let ?s = "sort_key f xs"
  have ne: "?s \<noteq> []" using assms by (rule sort_key_nonempty)
  have mem: "last ?s \<in> set xs" using last_in_set[OF ne] by simp
  have srt: "sorted (map f ?s)" by (rule sorted_sort_key)
  have "\<forall>x \<in> set xs. f x \<le> f (last ?s)"
  proof
    fix x assume "x \<in> set xs"
    then have "f x \<in> set (map f ?s)" by simp
    then have "f x \<le> last (map f ?s)" using srt by (rule sorted_le_last[rotated])
    then show "f x \<le> f (last ?s)" using ne by (simp add: last_map)
  qed
  with mem show ?thesis by simp
qed

lemma latest_checkpoint_greatest:
  assumes cps: "cps = filter (\<lambda>d. startswith d ''checkpoint'') listing"
      and ne: "cps \<noteq> []"
      and ok: "list_all (\<lambda>d. \<not> isl (checkpoint_step d)) cps"
  shows "\<exists>p. latest_checkpoint listing = Inr (Some p) \<and> p \<in> set cps \<and>
             (\<forall>d \<in> set cps. projr (checkpoint_step d) \<le> projr (checkpoint_step p))"
proof -
  let ?kd = "map (\<lambda>d. (projr (checkpoint_step d), d)) cps"
  have wk: "with_keys cps = Inr ?kd" using ok by (rule with_keys_total)
  have kne: "?kd \<noteq> []" using ne by simp
  let ?s = "sort_key fst ?kd"
  have sne: "?s \<noteq> []" using kne by (rule sort_key_nonempty)
  from last_sort_key[OF kne, of fst]
  have mem: "last ?s \<in> set ?kd" and mx: "\<forall>x \<in> set ?kd. fst x \<le> fst (last ?s)" by auto
  let ?p = "snd (last ?s)"
  have lc: "latest_checkpoint listing = Inr (Some ?p)"
    unfolding latest_checkpoint_def Let_def cps[symmetric]
    using wk sne ne by (simp add: sorted_dirs_def last_map)
  from mem obtain d where d: "d \<in> set cps" "last ?s = (projr (checkpoint_step d), d)" by auto
  have pin: "?p \<in> set cps" using d by simp
  have key: "fst (last ?s) = projr (checkpoint_step ?p)" using d by simp
  have "\<forall>d \<in> set cps. projr (checkpoint_step d) \<le> projr (checkpoint_step ?p)"
  proof
    fix e assume "e \<in> set cps"
    then have "(projr (checkpoint_step e), e) \<in> set ?kd" by simp
    with mx have "projr (checkpoint_step e) \<le> fst (last ?s)" by fastforce
    then show "projr (checkpoint_step e) \<le> projr (checkpoint_step ?p)" using key by simp
  qed
  with lc pin show ?thesis by blast
qed

text \<open>
  C9, as the code has it. With \<^verbatim>\<open>--resume_from_checkpoint latest\<close>: when no entry of
  the output directory starts with \<^verbatim>\<open>checkpoint\<close> the run starts fresh with the
  warning; when every entry that starts with \<^verbatim>\<open>checkpoint\<close> has an integer after its
  first dash, the entry handed to \<^verbatim>\<open>load_state\<close> is one with the greatest such
  integer, and that integer becomes \<^verbatim>\<open>global_step\<close>.
\<close>

theorem latest_selects_greatest_step:
  assumes ok: "list_all (\<lambda>d. \<not> isl (checkpoint_step d))
                 (filter (\<lambda>d. startswith d ''checkpoint'') listing)"
  shows "if filter (\<lambda>d. startswith d ''checkpoint'') listing = []
         then resume load_state listing output_dir (Some ''latest'') accum nupe =
                Inr \<lparr>global_step = 0, first_epoch = 0, resume_step = None,
                     resume_from_checkpoint = None, loaded_from = None,
                     printed = [missing_message ''latest'']\<rparr>
         else (\<exists>p. latest_checkpoint listing = Inr (Some p) \<and>
                 p \<in> set (filter (\<lambda>d. startswith d ''checkpoint'') listing) \<and>
                 list_all (\<lambda>d. projr (checkpoint_step d) \<le> projr (checkpoint_step p))
                   (filter (\<lambda>d. startswith d ''checkpoint'') listing) \<and>
                 resume load_state listing output_dir (Some ''latest'') accum nupe =
                   (if \<not> load_state (path_join output_dir p)
                    then Inl (LoadStateError (path_join output_dir p))
                    else if nupe = 0 \<or> accum = 0 then Inl ZeroDivisionError
                    else Inr \<lparr>global_step = projr (checkpoint_step p),
                              first_epoch = projr (checkpoint_step p) div nupe,
                              resume_step = Some ((projr (checkpoint_step p) * accum) mod (nupe * accum)),
                              resume_from_checkpoint = Some ''latest'',
                              loaded_from = Some (path_join output_dir p),
                              printed = [resuming_message p]\<rparr>))"
proof (cases "filter (\<lambda>d. startswith d ''checkpoint'') listing = []")
  case True
  then have "latest_checkpoint listing = Inr None"
    by (simp add: latest_checkpoint_def sorted_dirs_def)
  then show ?thesis using True by (simp add: resume_def)
next
  case False
  define cps where "cps = filter (\<lambda>d. startswith d ''checkpoint'') listing"
  have ne: "cps \<noteq> []" using False by (simp add: cps_def)
  have ok': "list_all (\<lambda>d. \<not> isl (checkpoint_step d)) cps" using ok by (simp add: cps_def)
  from latest_checkpoint_greatest [OF cps_def ne ok'] obtain p where
      lc: "latest_checkpoint listing = Inr (Some p)" and pin: "p \<in> set cps"
    and mx: "\<forall>d \<in> set cps. projr (checkpoint_step d) \<le> projr (checkpoint_step p)"
    by blast
  from pin ok' have "\<not> isl (checkpoint_step p)" by (simp add: list_all_iff)
  then obtain g where g: "checkpoint_step p = Inr g" by (cases "checkpoint_step p") auto
  have rs: "resume load_state listing output_dir (Some ''latest'') accum nupe =
              (if \<not> load_state (path_join output_dir p)
               then Inl (LoadStateError (path_join output_dir p))
               else if nupe = 0 \<or> accum = 0 then Inl ZeroDivisionError
               else Inr \<lparr>global_step = g, first_epoch = g div nupe,
                         resume_step = Some ((g * accum) mod (nupe * accum)),
                         resume_from_checkpoint = Some ''latest'',
                         loaded_from = Some (path_join output_dir p),
                         printed = [resuming_message p]\<rparr>)"
    using lc g by (simp add: resume_def Let_def)
  have mx': "list_all (\<lambda>d. projr (checkpoint_step d) \<le> projr (checkpoint_step p)) cps"
    using mx by (simp add: list_all_iff)
  have "\<exists>p. latest_checkpoint listing = Inr (Some p) \<and> p \<in> set cps \<and>
          list_all (\<lambda>d. projr (checkpoint_step d) \<le> projr (checkpoint_step p)) cps \<and>
          resume load_state listing output_dir (Some ''latest'') accum nupe =
            (if \<not> load_state (path_join output_dir p)
             then Inl (LoadStateError (path_join output_dir p))
             else if nupe = 0 \<or> accum = 0 then Inl ZeroDivisionError
             else Inr \<lparr>global_step = projr (checkpoint_step p),
                       first_epoch = projr (checkpoint_step p) div nupe,
                       resume_step = Some ((projr (checkpoint_step p) * accum) mod (nupe * accum)),
                       resume_from_checkpoint = Some ''latest'',
                       loaded_from = Some (path_join output_dir p),
                       printed = [resuming_message p]\<rparr>)"
    using lc pin mx' rs g by (intro exI[of _ p]) simp
  then show ?thesis using False unfolding cps_def by simp
qed

text \<open>The theorem on a directory where the greatest step is neither the last entry
  listed nor the last in dictionary order.\<close>

theorem latest_selects_greatest_step_witness:
  "latest_checkpoint [''checkpoint-9'', ''logs'', ''checkpoint-10'', ''checkpoint-8''] =
     Inr (Some ''checkpoint-10'') \<and>
   global_step (projr (resume (\<lambda>_. True) [''checkpoint-9'', ''logs'', ''checkpoint-10'', ''checkpoint-8'']
      ''out'' (Some ''latest'') 1 4)) = 10"
proof -
  let ?l = "[''checkpoint-9'', ''logs'', ''checkpoint-10'', ''checkpoint-8'']"
  have f: "filter (\<lambda>d. startswith d ''checkpoint'') ?l =
             [''checkpoint-9'', ''checkpoint-10'', ''checkpoint-8'']"
    by code_simp
  have k: "checkpoint_step ''checkpoint-9'' = Inr 9" "checkpoint_step ''checkpoint-10'' = Inr 10"
          "checkpoint_step ''checkpoint-8'' = Inr 8"
    by code_simp+
  have ok: "list_all (\<lambda>d. \<not> isl (checkpoint_step d)) (filter (\<lambda>d. startswith d ''checkpoint'') ?l)"
    unfolding f by (simp add: k)
  from latest_selects_greatest_step [OF ok, of "\<lambda>_. True" "''out''" 1 4]
  obtain p where lc: "latest_checkpoint ?l = Inr (Some p)"
    and pin: "p \<in> set [''checkpoint-9'', ''checkpoint-10'', ''checkpoint-8'']"
    and mx: "list_all (\<lambda>d. projr (checkpoint_step d) \<le> projr (checkpoint_step p))
               [''checkpoint-9'', ''checkpoint-10'', ''checkpoint-8'']"
    and rs: "resume (\<lambda>_. True) ?l ''out'' (Some ''latest'') 1 4 =
               Inr \<lparr>global_step = projr (checkpoint_step p),
                    first_epoch = projr (checkpoint_step p) div 4,
                    resume_step = Some ((projr (checkpoint_step p) * 1) mod (4 * 1)),
                    resume_from_checkpoint = Some ''latest'',
                    loaded_from = Some (path_join ''out'' p),
                    printed = [resuming_message p]\<rparr>"
    unfolding f by auto
  from pin mx have p: "p = ''checkpoint-10''" by (auto simp: k)
  show ?thesis using lc rs by (simp add: p k)
qed

text \<open>C9 as the specification words it asks only for one well-formed entry. One entry
  that starts with \<^verbatim>\<open>checkpoint\<close> and has no dash makes the sort key raise, whatever
  the other entries are.\<close>

theorem latest_malformed_entry_counterexample:
  "filter (\<lambda>d. startswith d ''checkpoint'') [''checkpoint-3'', ''checkpoints''] \<noteq> [] \<and>
   checkpoint_step ''checkpoint-3'' = Inr 3 \<and>
   latest_checkpoint [''checkpoint-3'', ''checkpoints''] = Inl IndexError \<and>
   resume (\<lambda>_. True) [''checkpoint-3'', ''checkpoints''] ''out'' (Some ''latest'') 1 10 = Inl IndexError"
  by code_simp

section \<open>Resuming: a checkpoint that is not there\<close>

text \<open>
  C2 at an explicit checkpoint name that does not exist under the output directory:
  the name is taken as it is, \<^verbatim>\<open>load_state\<close> is called on it and raises; the
  warning branch is never reached.
\<close>

theorem resume_missing_explicit_checkpoint:
  "resume (\<lambda>_. False) [] ''out'' (Some ''checkpoint-5'') 1 10 =
     Inl (LoadStateError ''out/checkpoint-5'')"
  by code_simp

section \<open>The EMA swap around sampling and saving\<close>

text \<open>
  C1, as the code has it. When the pipeline call (or the save) returns, the block ends
  with the live parameters it started with, with or without EMA. When it raises, the
  exception leaves the block before line 820 (or 854): with EMA enabled the live network
  then holds the shadow parameters and the saved ones are still in the EMA model; nothing
  puts them back.
\<close>

theorem ema_swap_restored_on_return:
  "(fst (pipeline (if use_ema a then shadow_params w else live w) noise_scheduler (manual_seed 0)
         rng (eval_batch_size a) (ddpm_num_inference_steps a)) = Inr images \<longrightarrow>
      live (fst (sample_images a pipeline noise_scheduler manual_seed log_images epoch g rng w))
        = live w) \<and>
   (fst (pipeline (if use_ema a then shadow_params w else live w) noise_scheduler (manual_seed 0)
         rng (eval_batch_size a) (ddpm_num_inference_steps a)) = Inl e \<longrightarrow>
      sample_images a pipeline noise_scheduler manual_seed log_images epoch g rng w =
        ((if use_ema a then w\<lparr>live := shadow_params w, temp_stored_params := Some (live w)\<rparr> else w),
         snd (pipeline (if use_ema a then shadow_params w else live w) noise_scheduler
                (manual_seed 0) rng (eval_batch_size a) (ddpm_num_inference_steps a)),
         Inl e)) \<and>
   (save_pretrained (if use_ema a then shadow_params w else live w) noise_scheduler \<longrightarrow>
      live (fst (save_model a save_pretrained noise_scheduler push w)) = live w) \<and>
   (\<not> save_pretrained (if use_ema a then shadow_params w else live w) noise_scheduler \<longrightarrow>
      save_model a save_pretrained noise_scheduler push w =
        ((if use_ema a then w\<lparr>live := shadow_params w, temp_stored_params := Some (live w)\<rparr> else w),
         Inl SaveError))"
proof (cases "use_ema a")
  case True
  obtain out r where p: "pipeline (shadow_params w) noise_scheduler (manual_seed 0) rng
                           (eval_batch_size a) (ddpm_num_inference_steps a) = (out, r)"
    by (cases "pipeline (shadow_params w) noise_scheduler (manual_seed 0) rng
                 (eval_batch_size a) (ddpm_num_inference_steps a)")
  show ?thesis
    using True p
    by (cases out)
       (simp_all add: sample_images_def save_model_def Let_def restore_def copy_to_def store_def)
next
  case False
  obtain out r where p: "pipeline (live w) noise_scheduler (manual_seed 0) rng
                           (eval_batch_size a) (ddpm_num_inference_steps a) = (out, r)"
    by (cases "pipeline (live w) noise_scheduler (manual_seed 0) rng
                 (eval_batch_size a) (ddpm_num_inference_steps a)")
  show ?thesis
    using False p
    by (cases out)
       (simp_all add: sample_images_def save_model_def Let_def restore_def copy_to_def store_def)
qed

text \<open>The theorem at an EMA run whose pipeline and save return: the live parameter is
  1 before and after, the shadow is 2.\<close>

theorem ema_swap_restored_on_return_witness:
  "live (fst (sample_images
      \<lparr>gradient_accumulation_steps = 1, use_ema = True, checkpointing_steps = 500,
        num_epochs = 1, save_images_epochs = 1, save_model_epochs = 1, eval_batch_size = 4,
        ddpm_num_inference_steps = 10, push_to_hub = False, evaluate = False\<rparr>
      (\<lambda>p c s r b n. (Inr (p + s), r)) () (\<lambda>seed. seed) (\<lambda>i e g. True) 0 0 (5::int)
      \<lparr>live = (1::int), shadow_params = 2, temp_stored_params = None\<rparr>)) = 1 \<and>
   live (fst (save_model
      \<lparr>gradient_accumulation_steps = 1, use_ema = True, checkpointing_steps = 500,
        num_epochs = 1, save_images_epochs = 1, save_model_epochs = 1, eval_batch_size = 4,
        ddpm_num_inference_steps = 10, push_to_hub = False, evaluate = False\<rparr>
      (\<lambda>p c. True) () True
      \<lparr>live = (1::int), shadow_params = 2, temp_stored_params = None\<rparr>)) = 1"
  using ema_swap_restored_on_return
    [where pipeline = "\<lambda>p c s r b n. (Inr (p + s), r)"
       and a = "\<lparr>gradient_accumulation_steps = 1, use_ema = True, checkpointing_steps = 500,
          num_epochs = 1, save_images_epochs = 1, save_model_epochs = 1, eval_batch_size = 4,
          ddpm_num_inference_steps = 10, push_to_hub = False, evaluate = False\<rparr>"
       and w = "\<lparr>live = (1::int), shadow_params = 2, temp_stored_params = None\<rparr>"
       and noise_scheduler = "()" and manual_seed = "\<lambda>seed. seed" and rng = 5 and images = 2
       and log_images = "\<lambda>i e g. True" and epoch = 0 and g = 0 and e = PipelineError
       and save_pretrained = "\<lambda>p c. True" and push = True]
  by simp

text \<open>C1 as the specification words it, restoration on the error path too, fails: with
  live parameter 1, shadow 2 and a pipeline that raises, the block is left with live
  parameter 2.\<close>

theorem ema_not_restored_on_error_counterexample:
  "sample_images
      \<lparr>gradient_accumulation_steps = 1, use_ema = True, checkpointing_steps = 500,
        num_epochs = 1, save_images_epochs = 1, save_model_epochs = 1, eval_batch_size = 4,
        ddpm_num_inference_steps = 10, push_to_hub = False, evaluate = False\<rparr>
      (\<lambda>p c s r b n. ((Inl PipelineError :: py_error + int), r)) () (\<lambda>seed. seed)
      (\<lambda>i e g. True) 0 0 (5::int)
      \<lparr>live = (1::int), shadow_params = 2, temp_stored_params = None\<rparr> =
     (\<lparr>live = 2, shadow_params = 2, temp_stored_params = Some 1\<rparr>, 5, Inl PipelineError) \<and>
   live (fst (sample_images
      \<lparr>gradient_accumulation_steps = 1, use_ema = True, checkpointing_steps = 500,
        num_epochs = 1, save_images_epochs = 1, save_model_epochs = 1, eval_batch_size = 4,
        ddpm_num_inference_steps = 10, push_to_hub = False, evaluate = False\<rparr>
      (\<lambda>p c s r b n. ((Inl PipelineError :: py_error + int), r)) () (\<lambda>seed. seed)
      (\<lambda>i e g. True) 0 0 (5::int)
      \<lparr>live = (1::int), shadow_params = 2, temp_stored_params = None\<rparr>)) \<noteq> 1"
  by (simp add: sample_images_def Let_def restore_def copy_to_def store_def)

section \<open>The seed of the sampling run\<close>




section \<open>Looking up per-sample coefficients\<close>

lemma append_dims_one: "append_dims [n] k = n # replicate (k - 1) 1"
proof -
  have "length sh \<le> k \<Longrightarrow> append_dims sh k = sh @ replicate (k - length sh) 1" for sh :: "nat list" and k
  proof (induction sh k rule: append_dims.induct)
    case (1 sh k)
    show ?case
    proof (cases "length sh < k")
      case True
      then have "append_dims sh k = append_dims (sh @ [1]) k" by (simp add: append_dims.simps[of sh k])
      also have "\<dots> = (sh @ [1]) @ replicate (k - length (sh @ [1])) 1"
        using 1 True by simp
      also have "\<dots> = sh @ replicate (k - length sh) 1"
      proof -
        obtain m where m: "k - length sh = Suc m" using True by (cases "k - length sh") auto
        then have "k - Suc (length sh) = m" by simp
        then show ?thesis using m by (simp add: replicate_append_same)
      qed
      finally show ?thesis .
    next
      case False
      then show ?thesis using 1 by (simp add: append_dims.simps[of sh k])
    qed
  qed
  from this[of "[n]" k] show ?thesis
    by (cases "1 \<le> k") (simp_all add: append_dims.simps[of "[n]" k])
qed

lemma concat_replicate_replicate: "concat (replicate d (replicate p x)) = replicate (d * p) x"
  by (induction d) (simp_all add: replicate_add)

lemma expand_data_ones:
  "length ds = k \<Longrightarrow> expand_data (replicate k 1) ds [x] = Inr (replicate (prod_list ds) x)"
proof (induction ds arbitrary: k)
  case Nil
  then show ?case by simp
next
  case (Cons d ds)
  then obtain k' where k: "k = Suc k'" "length ds = k'" by (cases k) auto
  show ?case using Cons.IH[OF k(2)] k by (simp add: concat_replicate_replicate)
qed

lemma prod_list_ones: "prod_list (replicate k (1::nat)) = 1"
  by (induction k) simp_all

lemma chunks_one: "length xs = n \<Longrightarrow> chunks 1 n xs = map (\<lambda>x. [x]) xs"
proof -
  assume n: "length xs = n"
  have "chunks 1 n xs = map (\<lambda>i. [xs ! i]) [0..<n]"
    unfolding chunks_def using n
    by (intro map_cong refl) (simp add: take_Suc_conv_app_nth)
  also have "\<dots> = map (\<lambda>x. [x]) (map (\<lambda>i. xs ! i) [0..<n])" by simp
  also have "\<dots> = map (\<lambda>x. [x]) xs" unfolding n[symmetric] map_nth ..
  finally show ?thesis .
qed

lemma collect_map_Inr: "collect (map (\<lambda>x. Inr (f x)) xs) = Inr (map f xs)"
  by (induction xs) simp_all

lemma collect_all_Inr:
  "(\<And>x. x \<in> set xs \<Longrightarrow> g x = Inr (f x)) \<Longrightarrow> collect (map g xs) = Inr (map f xs)"
  by (induction xs) simp_all

lemma expand_data_batch:
  assumes "length ds = k" "length xs = b"
  shows "expand_data (b # replicate k 1) (b # ds) xs =
           Inr (concat (map (\<lambda>x. replicate (prod_list ds) x) xs))"
proof (cases "b = 1")
  case True
  then obtain x where x: "xs = [x]" using assms(2) by (cases xs) auto
  show ?thesis using True x expand_data_ones[OF assms(1), of x] by simp
next
  case False
  have c: "chunks (prod_list (replicate k 1)) b xs = map (\<lambda>x. [x]) xs"
    using chunks_one[OF assms(2)] by (simp only: prod_list_ones)
  have "collect (map (expand_data (replicate k 1) ds) (map (\<lambda>x. [x]) xs)) =
          Inr (map (\<lambda>x. replicate (prod_list ds) x) xs)"
  proof -
    have "collect (map (\<lambda>x. expand_data (replicate k 1) ds [x]) xs) =
            Inr (map (\<lambda>x. replicate (prod_list ds) x) xs)"
      by (rule collect_all_Inr) (rule expand_data_ones[OF assms(1)])
    then show ?thesis by (simp add: comp_def)
  qed
  then show ?thesis using False c by simp
qed

lemma nth_concat_replicate:
  "i < length xs \<Longrightarrow> r < p \<Longrightarrow> concat (map (\<lambda>x. replicate p x) xs) ! (i * p + r) = xs ! i"
proof (induction xs arbitrary: i)
  case Nil
  then show ?case by simp
next
  case (Cons x xs)
  show ?case
  proof (cases i)
    case 0
    then show ?thesis using Cons.prems by (simp add: nth_append)
  next
    case (Suc j)
    then have "j < length xs" using Cons.prems by simp
    from Cons.IH[OF this Cons.prems(2)] show ?thesis
      using Suc by (simp add: nth_append)
  qed
qed

lemma offset_bound: "valid_index sh idx \<Longrightarrow> offset sh idx < prod_list sh"
proof (induction sh idx rule: offset.induct)
  case (1 s ss i js)
  then have i: "i < s" and v: "valid_index ss js" by (simp_all add: valid_index_def)
  from 1(1)[OF v] have o: "offset ss js < prod_list ss" .
  have "i * prod_list ss + offset ss js < (i + 1) * prod_list ss" using o by simp
  also have "\<dots> \<le> s * prod_list ss" using i by (intro mult_le_mono1) simp
  finally show ?case by simp
qed (simp_all add: valid_index_def)

lemma index_all_in_range:
  "list_all (\<lambda>t. 0 \<le> t \<and> t < int (length arr)) ts \<Longrightarrow>
   index_all arr ts = Inr (map (\<lambda>t. arr ! nat t) ts)"
  by (induction ts) (simp_all add: py_index_def)

lemma index_all_out_of_range:
  "list_ex (\<lambda>t. t < - int (length arr) \<or> int (length arr) \<le> t) ts \<Longrightarrow>
   index_all arr ts = Inl IndexError"
proof (induction ts)
  case Nil
  then show ?case by simp
next
  case (Cons t ts)
  show ?case
  proof (cases "t < - int (length arr) \<or> int (length arr) \<le> t")
    case True
    then have "py_index arr t = Inl IndexError" by (auto simp: py_index_def Let_def)
    then show ?thesis by simp
  next
    case False
    with Cons have "index_all arr ts = Inl IndexError" by simp
    moreover have "py_index arr t = Inl IndexError \<or> (\<exists>v. py_index arr t = Inr v)"
      by (auto simp: py_index_def Let_def)
    ultimately show ?thesis by auto
  qed
qed

lemma index_all_wrapped:
  "list_all (\<lambda>t. - int (length arr) \<le> t \<and> t < int (length arr)) ts \<Longrightarrow>
   index_all arr ts = Inr (map (\<lambda>t. arr ! nat (if t < 0 then int (length arr) + t else t)) ts)"
  by (induction ts) (simp_all add: py_index_def Let_def)

lemma length_concat_replicate:
  "length (concat (map (\<lambda>x. replicate p (g x)) xs)) = length xs * p"
  by (induction xs) simp_all

lemma extract_into_tensor_batch:
  assumes "list_all (\<lambda>t. - int (length arr) \<le> t \<and> t < int (length arr)) ts"
  shows "extract_into_tensor to_float arr ts (length ts # ds) =
           Inr \<lparr>shape = length ts # ds,
                data = concat (map (\<lambda>t. replicate (prod_list ds)
                         (to_float (arr ! nat (if t < 0 then int (length arr) + t else t)))) ts)\<rparr>"
proof -
  let ?vs = "map (\<lambda>t. to_float (arr ! nat (if t < 0 then int (length arr) + t else t))) ts"
  have ad: "append_dims [length ts] (length (length ts # ds)) = length ts # replicate (length ds) 1"
    by (simp add: append_dims_one)
  have ex: "expand_data (length ts # replicate (length ds) 1) (length ts # ds) ?vs =
              Inr (concat (map (\<lambda>x. replicate (prod_list ds) x) ?vs))"
    by (rule expand_data_batch) simp_all
  show ?thesis
    unfolding extract_into_tensor_def index_all_wrapped[OF assms] ad
    by (simp add: expand_def ex[unfolded One_nat_def] map_map comp_def del: expand_data.simps)
qed

text \<open>
  C8, as the code has it. For indices each within \<open>[-len(arr), len(arr))\<close> and a
  broadcast shape whose first dimension is the batch length, the result has the broadcast
  shape and every element at batch position \<open>i\<close> is \<open>arr[timesteps[i]]\<close> converted by
  \<^verbatim>\<open>.float()\<close>, a negative index counting from the end of \<open>arr\<close>; an index outside
  \<open>[-len(arr), len(arr))\<close> makes the lookup fail.
\<close>

theorem extract_into_tensor_values:
  "(list_all (\<lambda>t. - int (length arr) \<le> t \<and> t < int (length arr)) timesteps \<longrightarrow>
      (\<exists>res. extract_into_tensor to_float arr timesteps (length timesteps # ds) = Inr res \<and>
         shape res = length timesteps # ds \<and> well_formed res \<and>
         (\<forall>idx. valid_index (length timesteps # ds) idx \<longrightarrow>
            tensor_get res idx =
              to_float (arr ! nat (if timesteps ! hd idx < 0
                                   then int (length arr) + timesteps ! hd idx
                                   else timesteps ! hd idx))))) \<and>
   (list_ex (\<lambda>t. t < - int (length arr) \<or> int (length arr) \<le> t) timesteps \<longrightarrow>
      extract_into_tensor to_float arr timesteps broadcast_shape = Inl IndexError)"
proof (intro conjI impI)
  assume ok: "list_all (\<lambda>t. - int (length arr) \<le> t \<and> t < int (length arr)) timesteps"
  let ?f = "\<lambda>t. to_float (arr ! nat (if t < 0 then int (length arr) + t else t))"
  let ?res = "\<lparr>shape = length timesteps # ds,
               data = concat (map (\<lambda>t. replicate (prod_list ds) (?f t)) timesteps)\<rparr>"
  have r: "extract_into_tensor to_float arr timesteps (length timesteps # ds) = Inr ?res"
    by (rule extract_into_tensor_batch[OF ok])
  have d: "data ?res = concat (map (\<lambda>x. replicate (prod_list ds) x) (map ?f timesteps))"
    by (simp add: map_map comp_def)
  have wf: "well_formed ?res"
    by (simp add: well_formed_def length_concat_replicate)
  have el: "tensor_get ?res idx = ?f (timesteps ! hd idx)"
    if v: "valid_index (length timesteps # ds) idx" for idx
  proof -
    from v obtain i js where idx: "idx = i # js" and i: "i < length timesteps"
      and vj: "valid_index ds js"
      by (cases idx) (auto simp: valid_index_def)
    have o: "offset ds js < prod_list ds" by (rule offset_bound[OF vj])
    have "tensor_get ?res idx =
            concat (map (\<lambda>x. replicate (prod_list ds) x) (map ?f timesteps)) ! (i * prod_list ds + offset ds js)"
      unfolding tensor_get_def d by (simp add: idx)
    also have "\<dots> = map ?f timesteps ! i"
      by (rule nth_concat_replicate) (use i o in simp_all)
    also have "\<dots> = ?f (timesteps ! i)" using i by simp
    finally show ?thesis by (simp add: idx)
  qed
  show "\<exists>res. extract_into_tensor to_float arr timesteps (length timesteps # ds) = Inr res \<and>
         shape res = length timesteps # ds \<and> well_formed res \<and>
         (\<forall>idx. valid_index (length timesteps # ds) idx \<longrightarrow>
            tensor_get res idx =
              to_float (arr ! nat (if timesteps ! hd idx < 0
                                   then int (length arr) + timesteps ! hd idx
                                   else timesteps ! hd idx)))"
    using r wf el by (intro exI[of _ ?res]) simp
next
  assume "list_ex (\<lambda>t. t < - int (length arr) \<or> int (length arr) \<le> t) timesteps"
  then show "extract_into_tensor to_float arr timesteps broadcast_shape = Inl IndexError"
    by (simp add: extract_into_tensor_def index_all_out_of_range)
qed

text \<open>The theorem on an array of three integers converted to reals: a 2 by 3 result
  whose rows repeat \<open>arr[2]\<close> and \<open>arr[0]\<close>, and a failure at index 3.\<close>

theorem extract_into_tensor_values_witness:
  "shape (projr (extract_into_tensor real_of_int [10, 20, 30] [2, 0] [2, 3])) = [2, 3] \<and>
   tensor_get (projr (extract_into_tensor real_of_int [10, 20, 30] [2, 0] [2, 3])) [1, 2] = 10 \<and>
   tensor_get (projr (extract_into_tensor real_of_int [10, 20, 30] [2, 0] [2, 3])) [0, 1] = 30 \<and>
   extract_into_tensor real_of_int [10, 20, 30] [1, 3] [2, 3] = Inl IndexError"
proof -
  have ok: "list_all (\<lambda>t. - int (length [10, 20, 30 :: int]) \<le> t \<and> t < int (length [10, 20, 30 :: int])) [2, 0]"
    by simp
  have bad: "list_ex (\<lambda>t. t < - int (length [10, 20, 30 :: int]) \<or> int (length [10, 20, 30 :: int]) \<le> t) [1, 3]"
    by simp
  have v1: "valid_index (length [2, 0 :: int] # [3]) [1, 2]" by (simp add: valid_index_def)
  have v0: "valid_index (length [2, 0 :: int] # [3]) [0, 1]" by (simp add: valid_index_def)
  from extract_into_tensor_values [of "[10, 20, 30 :: int]" "[2, 0]" real_of_int "[3]" "[2, 3]"] ok
  obtain res where r: "extract_into_tensor real_of_int [10, 20, 30] [2, 0] (length [2, 0 :: int] # [3]) = Inr res"
    and sh: "shape res = length [2, 0 :: int] # [3]"
    and el: "\<And>idx. valid_index (length [2, 0 :: int] # [3]) idx \<Longrightarrow>
               tensor_get res idx =
                 real_of_int ([10, 20, 30] ! nat (if [2, 0 :: int] ! hd idx < 0
                    then int (length [10, 20, 30 :: int]) + [2, 0] ! hd idx else [2, 0] ! hd idx))"
    by blast
  have r': "extract_into_tensor real_of_int [10, 20, 30] [2, 0] [2, 3] = Inr res"
    using r by (simp add: numeral_2_eq_2)
  have f: "extract_into_tensor real_of_int [10, 20, 30] [1, 3] [2, 3] = Inl IndexError"
    using extract_into_tensor_values [of "[10, 20, 30 :: int]" "[1, 3]" real_of_int "[3]" "[2, 3]"] bad
    by blast
  show ?thesis unfolding r' using sh el[OF v1] el[OF v0] f by simp
qed

text \<open>C8 as the specification words it says the lookup fails outside \<open>[0, len(arr))\<close>.
  Index \<open>-1\<close> does not fail: it reads the last element.\<close>

theorem extract_negative_index_counterexample:
  "extract_into_tensor real_of_int [10, 20, 30] [- 1] [1] = Inr \<lparr>shape = [1], data = [30]\<rparr>"
  by (simp add: extract_into_tensor_def py_index_def expand_def append_dims.simps[of "[Suc 0]" "Suc 0"])

section \<open>The loss in noise mode\<close>

lemma concat_chunks: "concat (chunks c n xs) = take (n * c) xs"
proof (induction n)
  case 0
  then show ?case by (simp add: chunks_def)
next
  case (Suc n)
  have "chunks c (Suc n) xs = chunks c n xs @ [take c (drop (n * c) xs)]"
    by (simp add: chunks_def)
  then have "concat (chunks c (Suc n) xs) = take (n * c) xs @ take c (drop (n * c) xs)"
    using Suc by simp
  also have "\<dots> = take (n * c + c) xs" by (simp add: take_add)
  finally show ?case by (simp add: add.commute)
qed

lemma length_chunk:
  assumes "length xs = n * c" "ch \<in> set (chunks c n xs)"
  shows "length ch = c"
proof -
  from assms(2) obtain i where i: "i < n" and ch: "ch = take c (drop (i * c) xs)"
    by (auto simp: chunks_def)
  have "Suc i * c \<le> n * c" using i by (intro mult_le_mono1) simp
  then have "c \<le> n * c - i * c" by simp
  then show ?thesis using assms(1) ch by simp
qed

lemma expand_data_same:
  "length xs = prod_list sh \<Longrightarrow> expand_data sh sh xs = Inr xs"
proof (induction sh arbitrary: xs)
  case Nil
  then show ?case by simp
next
  case (Cons s ss)
  show ?case
  proof (cases "s = 1")
    case True
    then have "length xs = prod_list ss" using Cons.prems by simp
    from Cons.IH[OF this] show ?thesis using True by simp
  next
    case False
    have len: "length xs = s * prod_list ss" using Cons.prems by simp
    have "collect (map (expand_data ss ss) (chunks (prod_list ss) s xs)) =
            Inr (map (\<lambda>ch. ch) (chunks (prod_list ss) s xs))"
    proof (rule collect_all_Inr)
      fix ch assume "ch \<in> set (chunks (prod_list ss) s xs)"
      then have "length ch = prod_list ss" using length_chunk[OF len] by blast
      then show "expand_data ss ss ch = Inr ch" by (rule Cons.IH)
    qed
    then show ?thesis using False len by (simp add: concat_chunks)
  qed
qed

lemma broadcast_shape_of_same: "broadcast_shape_of sh sh = Inr sh"
  by (induction sh) simp_all

lemma pad_left_same: "pad_left (length sh) sh = sh"
  by (simp add: pad_left_def)

lemma broadcast2_same_shape:
  assumes "shape x = shape y" "well_formed x" "well_formed y"
  shows "broadcast2 f x y = Inr \<lparr>shape = shape y, data = map2 f (data x) (data y)\<rparr>"
proof -
  have x: "expand_data (shape y) (shape y) (data x) = Inr (data x)"
    using assms by (intro expand_data_same) (simp add: well_formed_def)
  have y: "expand_data (shape y) (shape y) (data y) = Inr (data y)"
    using assms by (intro expand_data_same) (simp add: well_formed_def)
  show ?thesis
    by (simp add: broadcast2_def assms(1) pad_left_same broadcast_shape_of_same x y)
qed

lemma sum_list_nth_sum: "sum_list (xs :: real list) = (\<Sum>i<length xs. xs ! i)"
  by (simp add: sum_list_sum_nth atLeast0LessThan)

lemma mse_loss_same_shape:
  assumes "shape x = shape y" "well_formed x" "well_formed y" "data y \<noteq> []"
  shows "mse_loss x y =
           Inr ((\<Sum>i<length (data y). (data x ! i - data y ! i)\<^sup>2) / real (length (data y)))"
proof -
  have lx: "length (data x) = length (data y)" using assms by (simp add: well_formed_def)
  let ?d = "map2 (\<lambda>a b. (a - b)\<^sup>2) (data x) (data y)"
  have l: "length ?d = length (data y)" using lx by simp
  have ne: "?d \<noteq> []" using assms(4) lx by (cases "data x"; cases "data y") auto
  have "sum_list ?d = (\<Sum>i<length ?d. ?d ! i)" by (rule sum_list_nth_sum)
  also have "\<dots> = (\<Sum>i<length (data y). (data x ! i - data y ! i)\<^sup>2)"
    unfolding l by (intro sum.cong refl) (simp add: lx)
  finally have s: "sum_list ?d = (\<Sum>i<length (data y). (data x ! i - data y ! i)\<^sup>2)" .
  show ?thesis
    unfolding mse_loss_def mse_loss_none_def broadcast2_same_shape[OF assms(1-3)]
    using ne s l by (simp add: mean_def)
qed

text \<open>
  C6. With \<^verbatim>\<open>prediction_type = "epsilon"\<close>, for a prediction and a noise tensor of
  the same shape with at least one element, the loss is the plain mean of the squared
  differences between prediction and noise; when the prediction is the noise the loss
  is 0. (Real arithmetic; the rounding of floats is not modelled.)
\<close>

theorem epsilon_loss_is_mse:
  assumes "shape model_output = shape noise" "well_formed model_output" "well_formed noise"
      and "data noise \<noteq> []"
  shows "training_loss ''epsilon'' alphas_cumprod model_output noise clean_images timesteps =
           Inr ((\<Sum>i<length (data noise). (data model_output ! i - data noise ! i)\<^sup>2)
                  / real (length (data noise))) \<and>
         (model_output = noise \<longrightarrow>
            training_loss ''epsilon'' alphas_cumprod model_output noise clean_images timesteps = Inr 0)"
proof -
  have m: "training_loss ''epsilon'' alphas_cumprod model_output noise clean_images timesteps =
             mse_loss model_output noise"
    by (simp add: training_loss_def)
  show ?thesis unfolding m mse_loss_same_shape[OF assms] by simp
qed

text \<open>The theorem on two elements: squared errors 0 and 4 give loss 2, and a prediction
  equal to the noise gives 0.\<close>

theorem epsilon_loss_is_mse_witness:
  "training_loss ''epsilon'' [] \<lparr>shape = [1, 2], data = [1, 3]\<rparr> \<lparr>shape = [1, 2], data = [1, 1]\<rparr>
      \<lparr>shape = [1, 2], data = [5, 5]\<rparr> [0] = Inr 2 \<and>
   training_loss ''epsilon'' [] \<lparr>shape = [1, 2], data = [1, 1]\<rparr> \<lparr>shape = [1, 2], data = [1, 1]\<rparr>
      \<lparr>shape = [1, 2], data = [5, 5]\<rparr> [0] = Inr 0"
proof -
  let ?o = "\<lparr>shape = [1, 2], data = [1, 3 :: real]\<rparr>"
  let ?n = "\<lparr>shape = [1, 2], data = [1, 1 :: real]\<rparr>"
  have s: "shape ?o = shape ?n" "shape ?n = shape ?n" by simp_all
  have w: "well_formed ?o" "well_formed ?n" by (simp_all add: well_formed_def)
  have ne: "data ?n \<noteq> []" by simp
  from epsilon_loss_is_mse [OF s(1) w(1) w(2) ne, of "[]" "\<lparr>shape = [1, 2], data = [5, 5]\<rparr>" "[0]"]
       epsilon_loss_is_mse [OF s(2) w(2) w(2) ne, of "[]" "\<lparr>shape = [1, 2], data = [5, 5]\<rparr>" "[0]"]
  show ?thesis by (simp add: lessThan_Suc numeral_2_eq_2)
qed

section \<open>The loss in direct-sample mode\<close>

lemma broadcast_shape_of_ones:
  "length ds = k \<Longrightarrow> broadcast_shape_of (replicate k 1) ds = Inr ds"
proof (induction ds arbitrary: k)
  case Nil
  then show ?case by simp
next
  case (Cons d ds)
  then obtain k' where k: "k = Suc k'" "length ds = k'" by (cases k) auto
  show ?case using Cons.IH[OF k(2)] k by simp
qed

lemma broadcast_shape_of_batch:
  "length ds = k \<Longrightarrow> broadcast_shape_of (b # replicate k 1) (b # ds) = Inr (b # ds)"
  using broadcast_shape_of_ones[of ds k] by simp

lemma nth_concat_replicate_div:
  assumes "k < length xs * p"
  shows "concat (map (\<lambda>x. replicate p x) xs) ! k = xs ! (k div p)"
proof -
  have p: "0 < p" using assms by (cases p) auto
  have i: "k div p < length xs" using assms p by (simp add: less_mult_imp_div_less)
  have r: "k mod p < p" using p by simp
  from nth_concat_replicate[OF i r] show ?thesis by simp
qed

lemma broadcast2_batch:
  assumes sx: "shape x = b # replicate (length ds) 1" and lx: "length (data x) = b"
      and sy: "shape y = b # ds" and wy: "well_formed y"
  shows "broadcast2 f x y =
           Inr \<lparr>shape = b # ds,
                data = map2 f (concat (map (\<lambda>v. replicate (prod_list ds) v) (data x))) (data y)\<rparr>"
proof -
  have k: "max (length (shape x)) (length (shape y)) = Suc (length ds)" by (simp add: sx sy)
  have px: "pad_left (Suc (length ds)) (shape x) = b # replicate (length ds) 1"
    by (simp add: pad_left_def sx)
  have py: "pad_left (Suc (length ds)) (shape y) = b # ds"
    by (simp add: pad_left_def sy)
  have bs: "broadcast_shape_of (b # replicate (length ds) 1) (b # ds) = Inr (b # ds)"
    by (rule broadcast_shape_of_batch) simp
  have ex: "expand_data (b # replicate (length ds) 1) (b # ds) (data x) =
              Inr (concat (map (\<lambda>v. replicate (prod_list ds) v) (data x)))"
    by (rule expand_data_batch) (simp_all add: lx)
  have ey: "expand_data (b # ds) (b # ds) (data y) = Inr (data y)"
    using wy by (intro expand_data_same) (simp add: well_formed_def sy)
  show ?thesis
    by (simp add: broadcast2_def Let_def k px[unfolded One_nat_def] py
          bs[unfolded One_nat_def] ex[unfolded One_nat_def] ey del: expand_data.simps broadcast_shape_of.simps)
qed

text \<open>
  C5. With \<^verbatim>\<open>prediction_type = "sample"\<close>, for a batch of shape \<open>[B, c, h, w]\<close> with
  one timestep per sample, each within the schedule and none with \<open>alpha_bar = 1\<close>, the
  loss is the mean over all elements of \<open>weight * (prediction - clean)\<^sup>2\<close>, where the
  weight of an element is \<open>alpha_bar_t / (1 - alpha_bar_t)\<close> at the timestep of the
  sample the element belongs to (element \<open>k\<close> belongs to sample \<open>k div (c*h*w)\<close>). The
  weights multiply the squared errors before the mean; the sum is divided by the number
  of elements and by nothing else. (Real arithmetic; the rounding of floats is not
  modelled.)
\<close>

theorem sample_loss_is_snr_weighted:
  assumes sc: "shape clean_images = [length timesteps, c, h, w]"
      and so: "shape model_output = shape clean_images"
      and wc: "well_formed clean_images" and wo: "well_formed model_output"
      and ts: "list_all (\<lambda>t. 0 \<le> t \<and> t < int (length alphas_cumprod)) timesteps"
      and a1: "list_all (\<lambda>t. alphas_cumprod ! nat t \<noteq> 1) timesteps"
      and ne: "data clean_images \<noteq> []"
  shows "training_loss ''sample'' alphas_cumprod model_output noise clean_images timesteps =
           Inr ((\<Sum>k<length (data clean_images).
                   (alphas_cumprod ! nat (timesteps ! (k div (c * h * w)))
                      / (1 - alphas_cumprod ! nat (timesteps ! (k div (c * h * w)))))
                   * (data model_output ! k - data clean_images ! k)\<^sup>2)
                 / real (length (data clean_images)))"
proof -
  let ?b = "length timesteps"
  let ?m = "c * h * w"
  let ?n = "length (data clean_images)"
  let ?al = "map (\<lambda>t. alphas_cumprod ! nat t) timesteps"
  have n: "?n = ?b * ?m" using wc sc by (simp add: well_formed_def mult.assoc)
  have lo: "length (data model_output) = ?n" using wo wc so by (simp add: well_formed_def)
  have ts': "list_all (\<lambda>t. - int (length alphas_cumprod) \<le> t \<and> t < int (length alphas_cumprod)) timesteps"
    using ts by (induction timesteps) auto
  have idx: "map (\<lambda>t. alphas_cumprod ! nat (if t < 0 then int (length alphas_cumprod) + t else t)) timesteps = ?al"
    using ts by (intro map_cong refl) (auto simp: list_all_iff)
  have "concat (map (\<lambda>t. replicate (prod_list [1, 1, 1])
            (alphas_cumprod ! nat (if t < 0 then int (length alphas_cumprod) + t else t))) timesteps)
        = map (\<lambda>t. alphas_cumprod ! nat (if t < 0 then int (length alphas_cumprod) + t else t)) timesteps"
    by (induction timesteps) simp_all
  then have ex: "extract_into_tensor (\<lambda>x. x) alphas_cumprod timesteps [?b, 1, 1, 1] =
              Inr \<lparr>shape = [?b, 1, 1, 1], data = ?al\<rparr>"
    using extract_into_tensor_batch[OF ts', of "\<lambda>x. x" "[1, 1, 1]"] idx by simp
  have nz: "\<not> list_ex (\<lambda>a. 1 - a = 0) ?al"
    using a1 by (auto simp: list_ex_iff list_all_iff)
  let ?ws = "map (\<lambda>a. a / (1 - a)) ?al"
  have snr: "snr_weights \<lparr>shape = [?b, 1, 1, 1], data = ?al\<rparr> =
               Inr \<lparr>shape = [?b, 1, 1, 1], data = ?ws\<rparr>"
    using nz by (simp add: snr_weights_def)
  let ?sq = "map2 (\<lambda>a b. (a - b)\<^sup>2) (data model_output) (data clean_images)"
  have mse: "mse_loss_none model_output clean_images =
               Inr \<lparr>shape = shape clean_images, data = ?sq\<rparr>"
    unfolding mse_loss_none_def by (rule broadcast2_same_shape[OF so wo wc])
  have lsq: "length ?sq = ?n" using lo by simp
  let ?wx = "concat (map (\<lambda>v. replicate (prod_list [c, h, w]) v) ?ws)"
  have "length ?wx = length ?ws * prod_list [c, h, w]"
    by (rule length_concat_replicate[of "prod_list [c, h, w]" "\<lambda>x. x" ?ws])
  then have lwx: "length ?wx = ?n" by (simp add: n mult.assoc)
  let ?loss = "map2 (\<lambda>a b. a * b) ?wx ?sq"
  have bm: "broadcast2 (\<lambda>a b. a * b) \<lparr>shape = [?b, 1, 1, 1], data = ?ws\<rparr>
              \<lparr>shape = shape clean_images, data = ?sq\<rparr> =
            Inr \<lparr>shape = [?b, c, h, w], data = ?loss\<rparr>"
    using broadcast2_batch[of "\<lparr>shape = [?b, 1, 1, 1], data = ?ws\<rparr>" ?b "[c, h, w]"
            "\<lparr>shape = shape clean_images, data = ?sq\<rparr>" "\<lambda>a b. a * b"] lo n
    by (simp add: sc well_formed_def mult.assoc)
  have ll: "length ?loss = ?n" using lwx lsq by simp
  have lne: "?loss \<noteq> []" using ll ne by (metis length_0_conv)
  have el: "?loss ! k =
              (alphas_cumprod ! nat (timesteps ! (k div ?m))
                 / (1 - alphas_cumprod ! nat (timesteps ! (k div ?m))))
              * (data model_output ! k - data clean_images ! k)\<^sup>2" if k: "k < ?n" for k
  proof -
    have m0: "0 < ?m" using k n by (cases "?m") auto
    have kd: "k div ?m < ?b" using k n m0 by (simp add: less_mult_imp_div_less)
    have "?wx ! k = ?ws ! (k div prod_list [c, h, w])"
      by (rule nth_concat_replicate_div) (use k n in \<open>simp add: mult.assoc\<close>)
    also have "\<dots> = ?ws ! (k div ?m)" by (simp add: mult.assoc)
    also have "\<dots> = alphas_cumprod ! nat (timesteps ! (k div ?m))
                     / (1 - alphas_cumprod ! nat (timesteps ! (k div ?m)))"
      using kd by simp
    finally have w: "?wx ! k = alphas_cumprod ! nat (timesteps ! (k div ?m))
                     / (1 - alphas_cumprod ! nat (timesteps ! (k div ?m)))" .
    have "?loss ! k = ?wx ! k * ?sq ! k" using k lwx lsq by simp
    also have "?sq ! k = (data model_output ! k - data clean_images ! k)\<^sup>2"
      using k lo by simp
    finally show ?thesis using w by simp
  qed
  have "sum_list ?loss = (\<Sum>k<length ?loss. ?loss ! k)" by (rule sum_list_nth_sum)
  also have "\<dots> = (\<Sum>k<?n. (alphas_cumprod ! nat (timesteps ! (k div ?m))
                 / (1 - alphas_cumprod ! nat (timesteps ! (k div ?m))))
              * (data model_output ! k - data clean_images ! k)\<^sup>2)"
    unfolding ll by (intro sum.cong refl el) simp
  finally have s: "sum_list ?loss = (\<Sum>k<?n. (alphas_cumprod ! nat (timesteps ! (k div ?m))
                 / (1 - alphas_cumprod ! nat (timesteps ! (k div ?m))))
              * (data model_output ! k - data clean_images ! k)\<^sup>2)" .
  have mn: "mean \<lparr>shape = [?b, c, h, w], data = ?loss\<rparr> = Inr (sum_list ?loss / real ?n)"
    using lne ll by (simp add: mean_def)
  have "training_loss ''sample'' alphas_cumprod model_output noise clean_images timesteps =
          Inr (sum_list ?loss / real ?n)"
    unfolding training_loss_def using sc ex snr mse bm mn by simp
  then show ?thesis unfolding s .
qed

text \<open>The theorem on two samples of two elements, weights 1 and 3, squared errors
  1, 4, 9, 16: the loss is (1 + 4 + 27 + 48) / 4 = 20.\<close>

theorem sample_loss_is_snr_weighted_witness:
  "training_loss ''sample'' [1 / 2, 3 / 4]
      \<lparr>shape = [2, 1, 1, 2], data = [1, 2, 3, 4]\<rparr>
      \<lparr>shape = [2, 1, 1, 2], data = [7, 7, 7, 7]\<rparr>
      \<lparr>shape = [2, 1, 1, 2], data = [0, 0, 0, 0]\<rparr> [0, 1] = Inr 20"
proof -
  let ?o = "\<lparr>shape = [2, 1, 1, 2], data = [1, 2, 3, 4 :: real]\<rparr>"
  let ?c = "\<lparr>shape = [2, 1, 1, 2], data = [0, 0, 0, 0 :: real]\<rparr>"
  let ?a = "[1 / 2, 3 / 4 :: real]"
  have sc: "shape ?c = [length [0, 1 :: int], 1, 1, 2]" by simp
  have so: "shape ?o = shape ?c" by simp
  have wc: "well_formed ?c" and wo: "well_formed ?o" by (simp_all add: well_formed_def)
  have ts: "list_all (\<lambda>t. 0 \<le> t \<and> t < int (length ?a)) [0, 1]" by simp
  have a1: "list_all (\<lambda>t. ?a ! nat t \<noteq> 1) [0, 1]" by simp
  have ne: "data ?c \<noteq> []" by simp
  have d: "(0::nat) div 2 = 0" "Suc 0 div 2 = 0" "Suc (Suc 0) div 2 = 1" "Suc (Suc (Suc 0)) div 2 = 1"
    by simp_all
  from sample_loss_is_snr_weighted [OF sc so wc wo ts a1 ne, of "\<lparr>shape = [2, 1, 1, 2], data = [7, 7, 7, 7]\<rparr>"]
  show ?thesis by (simp add: lessThan_Suc d)
qed

section \<open>One optimization step per group of micro-steps\<close>

lemma update_actions_optimization_step:
  "filter is_update
     ([Forward, Backward] @ [ClipGradNorm 1] @ [OptimizerStep] @ [LrSchedulerStep] @ [ZeroGrad]
        @ (if use_ema a then [EmaStep] else []) @ [GlobalStepIncrement] @ extra @ [Log g]) =
   optimization_step a"
  if "list_all (\<lambda>x. \<not> is_update x) extra"
  using that by (induction extra) (auto simp: is_update_def optimization_step_def)

lemma train_step_result:
  assumes "gradient_accumulation_steps a \<noteq> 0 \<or> eod" and "checkpointing_steps a \<noteq> 0"
  obtains m where
    "train_step a mp b eod s =
       Inr \<lparr>accelerator_step = (if eod then 0 else accelerator_step s + 1),
            train_global_step = train_global_step s
              + (if eod \<or> (accelerator_step s + 1) mod gradient_accumulation_steps a = 0
                 then 1 else 0),
            trace = trace s @ [m]\<rparr>"
    and "batch m = b" and "\<not> skipped m"
    and "update_actions m =
           (if eod \<or> (accelerator_step s + 1) mod gradient_accumulation_steps a = 0
            then optimization_step a else [])"
    and "stepped m \<longleftrightarrow> eod \<or> (accelerator_step s + 1) mod gradient_accumulation_steps a = 0"
proof (cases "eod \<or> (accelerator_step s + 1) mod gradient_accumulation_steps a = 0")
  case True
  let ?g = "train_global_step s + 1"
  let ?extra = "if ?g mod checkpointing_steps a = 0 \<and> mp then [SaveState ?g] else []"
  let ?m = "\<lparr>batch = b, skipped = False,
             actions = [Forward, Backward] @ [ClipGradNorm 1] @ [OptimizerStep] @ [LrSchedulerStep]
               @ [ZeroGrad] @ (if use_ema a then [EmaStep] else []) @ [GlobalStepIncrement]
               @ ?extra @ [Log ?g]\<rparr>"
  have ds: "do_sync (gradient_accumulation_steps a) eod (accelerator_step s) =
              Inr (if eod then 0 else accelerator_step s + 1, True)"
    using True assms(1) by (auto simp: do_sync_def)
  have st: "train_step a mp b eod s =
              Inr \<lparr>accelerator_step = (if eod then 0 else accelerator_step s + 1),
                   train_global_step = ?g, trace = trace s @ [?m]\<rparr>"
    using assms(2) by (simp add: train_step_def ds optimizer_step_def lr_scheduler_step_def
        optimizer_zero_grad_def Let_def)
  have ex: "list_all (\<lambda>x. \<not> is_update x) ?extra" by (simp add: is_update_def)
  have ua: "update_actions ?m = optimization_step a"
    unfolding update_actions_def using update_actions_optimization_step[OF ex] by simp
  have sp: "stepped ?m" by (simp add: stepped_def)
  show ?thesis
    by (rule that[of ?m]) (use True st ua sp in simp_all)
next
  case False
  then have ne: "\<not> eod" and nz: "gradient_accumulation_steps a \<noteq> 0" using assms(1) by auto
  let ?m = "\<lparr>batch = b, skipped = False, actions = [Forward, Backward] @ [Log (train_global_step s)]\<rparr>"
  have ds: "do_sync (gradient_accumulation_steps a) eod (accelerator_step s) =
              Inr (accelerator_step s + 1, False)"
    using False nz by (auto simp: do_sync_def)
  have st: "train_step a mp b eod s =
              Inr \<lparr>accelerator_step = accelerator_step s + 1,
                   train_global_step = train_global_step s, trace = trace s @ [?m]\<rparr>"
    by (simp add: train_step_def ds optimizer_step_def lr_scheduler_step_def
        optimizer_zero_grad_def Let_def)
  have ua: "update_actions ?m = []" by (simp add: update_actions_def is_update_def)
  have sp: "\<not> stepped ?m" by (simp add: stepped_def)
  show ?thesis
    by (rule that[of ?m]) (use False ne st ua sp in simp_all)
qed

lemma skip_entry_no_update:
  "update_actions \<lparr>batch = b, skipped = True, actions = []\<rparr> = []"
  by (simp add: update_actions_def)

lemma optimization_step_nonempty: "optimization_step a \<noteq> []"
  by (simp add: optimization_step_def)

lemma train_batches_pattern:
  assumes A: "0 < gradient_accumulation_steps a" and K: "checkpointing_steps a \<noteq> 0"
      and R: "sk \<longrightarrow> rs mod gradient_accumulation_steps a = 0"
  shows "accelerator_step s mod gradient_accumulation_steps a =
           (if sk \<and> int i < rs then 0 else int i mod gradient_accumulation_steps a) \<Longrightarrow>
         \<exists>s' T. train_batches a mp sk rs i bs s = Inr s' \<and> trace s' = trace s @ T \<and>
           map update_actions T =
             map (\<lambda>j. if sk \<and> int j < rs then []
                      else if Suc j = i + length bs
                              \<or> (int j + 1) mod gradient_accumulation_steps a = 0
                           then optimization_step a else []) [i..<i + length bs] \<and>
           train_global_step s' =
             train_global_step s + int (length (filter (\<lambda>m. update_actions m \<noteq> []) T)) \<and>
           (bs \<noteq> [] \<longrightarrow> accelerator_step s' mod gradient_accumulation_steps a = 0)"
proof (induction bs arbitrary: i s)
  case Nil
  show ?case by simp
next
  case (Cons b bs)
  let ?A = "gradient_accumulation_steps a"
  let ?pat = "\<lambda>n j. if sk \<and> int j < rs then []
                      else if Suc j = n \<or> (int j + 1) mod ?A = 0
                           then optimization_step a else []"
  have n: "i + length (b # bs) = Suc i + length bs" by simp
  have upt: "[i..<Suc i + length bs] = i # [Suc i..<Suc i + length bs]"
    by (simp add: upt_conv_Cons del: upt_Suc)
  have e1: "map (?pat (i + length (b # bs))) [i..<i + length (b # bs)] =
              ?pat (Suc i + length bs) i # map (?pat (Suc i + length bs)) [Suc i..<Suc i + length bs]"
    by (simp only: n upt list.map)
  show ?case
  proof (cases "sk \<and> int i < rs")
    case True
    let ?m = "\<lparr>batch = b, skipped = True, actions = []\<rparr>"
    let ?s1 = "s\<lparr>trace := trace s @ [?m]\<rparr>"
    have c0: "accelerator_step s mod ?A = 0" using Cons.prems True by simp
    have inv1: "accelerator_step ?s1 mod ?A = (if sk \<and> int (Suc i) < rs then 0 else int (Suc i) mod ?A)"
    proof (cases "int (Suc i) < rs")
      case True
      then show ?thesis using c0 \<open>sk \<and> int i < rs\<close> by simp
    next
      case False
      then have "rs = int (Suc i)" using True by simp
      then have "int (Suc i) mod ?A = 0" using R True by simp
      then show ?thesis using False c0 by simp
    qed
    from Cons.IH[OF inv1] obtain s' T where
      r: "train_batches a mp sk rs (Suc i) bs ?s1 = Inr s'" and t: "trace s' = trace ?s1 @ T"
      and up: "map update_actions T = map (?pat (Suc i + length bs)) [Suc i..<Suc i + length bs]"
      and gs: "train_global_step s' =
                 train_global_step ?s1 + int (length (filter (\<lambda>m. update_actions m \<noteq> []) T))"
      and ac: "bs \<noteq> [] \<longrightarrow> accelerator_step s' mod ?A = 0"
      by (elim exE conjE) (rule that)
    have run: "train_batches a mp sk rs i (b # bs) s = Inr s'" using True A r by simp
    have tt: "trace s' = trace s @ (?m # T)" using t by simp
    have pi: "?pat (Suc i + length bs) i = []" using True by simp
    have uu: "map update_actions (?m # T) = map (?pat (i + length (b # bs))) [i..<i + length (b # bs)]"
      unfolding e1 by (simp only: list.map up pi skip_entry_no_update)
    have gg: "train_global_step s' =
                train_global_step s + int (length (filter (\<lambda>m. update_actions m \<noteq> []) (?m # T)))"
      using gs by (simp add: skip_entry_no_update)
    have aa: "b # bs \<noteq> [] \<longrightarrow> accelerator_step s' mod ?A = 0"
    proof (cases "bs = []")
      case True
      then have "s' = ?s1" using r by simp
      then show ?thesis using c0 by simp
    next
      case False
      then show ?thesis using ac by simp
    qed
    show ?thesis
      by (rule exI[of _ s'], rule exI[of _ "?m # T"]) (intro conjI run tt uu gg aa)
  next
    case False
    have cm: "accelerator_step s mod ?A = int i mod ?A" using Cons.prems False by simp
    have c1: "(accelerator_step s + 1) mod ?A = (int i + 1) mod ?A"
    proof -
      have "(accelerator_step s + 1) mod ?A = (accelerator_step s mod ?A + 1) mod ?A"
        by (simp add: mod_add_left_eq)
      also have "\<dots> = (int i mod ?A + 1) mod ?A" by (simp only: cm)
      also have "\<dots> = (int i + 1) mod ?A" by (simp add: mod_add_left_eq)
      finally show ?thesis .
    qed
    let ?sync = "bs = [] \<or> (int i + 1) mod ?A = 0"
    from A have nz: "?A \<noteq> 0 \<or> bs = []" by simp
    obtain m where
      st0: "train_step a mp b (bs = []) s =
              Inr \<lparr>accelerator_step = (if bs = [] then 0 else accelerator_step s + 1),
                 train_global_step = train_global_step s
                   + (if bs = [] \<or> (accelerator_step s + 1) mod ?A = 0 then 1 else 0),
                 trace = trace s @ [m]\<rparr>"
      and ua0: "update_actions m =
                 (if bs = [] \<or> (accelerator_step s + 1) mod ?A = 0 then optimization_step a else [])"
      by (rule train_step_result[OF nz K, of mp b s])
    define s1 where "s1 = \<lparr>accelerator_step = (if bs = [] then 0 else accelerator_step s + 1),
                 train_global_step = train_global_step s + (if ?sync then 1 else 0),
                 trace = trace s @ [m]\<rparr>"
    have st: "train_step a mp b (bs = []) s = Inr s1" using st0 c1 by (simp add: s1_def)
    have ua: "update_actions m = (if ?sync then optimization_step a else [])"
      using ua0 c1 by simp
    have s1a: "accelerator_step s1 = (if bs = [] then 0 else accelerator_step s + 1)"
      and s1g: "train_global_step s1 = train_global_step s + (if ?sync then 1 else 0)"
      and s1t: "trace s1 = trace s @ [m]"
      by (simp_all add: s1_def)
    have nsk: "(sk \<and> int i < rs) = False" using False by simp
    have pi: "?pat (Suc i + length bs) i = (if ?sync then optimization_step a else [])"
      using False by auto
    have cnt: "update_actions m \<noteq> [] \<longleftrightarrow> ?sync"
      using ua by (simp add: optimization_step_nonempty)
    show ?thesis
    proof (cases "bs = []")
      case True
      have run: "train_batches a mp sk rs i (b # bs) s = Inr s1"
        unfolding True by (simp only: train_batches.simps nsk if_False st[unfolded True] sum.case)
      have tt: "trace s1 = trace s @ [m]" by (rule s1t)
      have uu: "map update_actions [m] = map (?pat (i + length (b # bs))) [i..<i + length (b # bs)]"
        unfolding e1 using True nsk by (simp only: list.map pi ua) simp
      have gg: "train_global_step s1 =
                  train_global_step s + int (length (filter (\<lambda>m. update_actions m \<noteq> []) [m]))"
        using s1g cnt by simp
      have aa: "b # bs \<noteq> [] \<longrightarrow> accelerator_step s1 mod ?A = 0" using s1a True by simp
      show ?thesis
        by (rule exI[of _ s1], rule exI[of _ "[m]"]) (intro conjI run tt uu gg aa)
    next
      case bne: False
      have nsk1: "\<not> (sk \<and> int (Suc i) < rs)" using False by auto
      have inv1: "accelerator_step s1 mod ?A = (if sk \<and> int (Suc i) < rs then 0 else int (Suc i) mod ?A)"
      proof -
        have "accelerator_step s1 mod ?A = (accelerator_step s + 1) mod ?A" using s1a bne by simp
        also have "\<dots> = int (Suc i) mod ?A" using c1 by (simp add: add.commute)
        finally show ?thesis using nsk1 by auto
      qed
      from Cons.IH[OF inv1] obtain s' T where
        r: "train_batches a mp sk rs (Suc i) bs s1 = Inr s'" and t: "trace s' = trace s1 @ T"
        and up: "map update_actions T = map (?pat (Suc i + length bs)) [Suc i..<Suc i + length bs]"
        and gs: "train_global_step s' =
                   train_global_step s1 + int (length (filter (\<lambda>m. update_actions m \<noteq> []) T))"
        and ac: "bs \<noteq> [] \<longrightarrow> accelerator_step s' mod ?A = 0"
        by (elim exE conjE) (rule that)
      have run: "train_batches a mp sk rs i (b # bs) s = Inr s'"
        by (simp only: train_batches.simps nsk if_False st sum.case r)
      have tt: "trace s' = trace s @ (m # T)" using t s1t by simp
      have uu: "map update_actions (m # T) = map (?pat (i + length (b # bs))) [i..<i + length (b # bs)]"
        unfolding e1 by (simp only: list.map pi ua up)
      have gg: "train_global_step s' =
                  train_global_step s + int (length (filter (\<lambda>m. update_actions m \<noteq> []) (m # T)))"
        using gs s1g cnt by simp
      have aa: "b # bs \<noteq> [] \<longrightarrow> accelerator_step s' mod ?A = 0" using ac bne by simp
      show ?thesis
        by (rule exI[of _ s'], rule exI[of _ "m # T"]) (intro conjI run tt uu gg aa)
    qed
  qed
qed

lemma train_epochs_pattern:
  assumes A: "0 < gradient_accumulation_steps a" and K: "checkpointing_steps a \<noteq> 0"
      and R: "resumed \<longrightarrow> rs mod gradient_accumulation_steps a = 0"
      and tails: "\<And>e g x. \<exists>x'. tail e g x = (x', Inr ())"
  shows "accelerator_step (fst sx) mod gradient_accumulation_steps a = 0 \<Longrightarrow>
         \<exists>s' x' T. train_epochs a mp dataloader learn tail resumed fe rs es sx = Inr (s', x') \<and>
           trace s' = trace (fst sx) @ T \<and>
           map update_actions T =
             concat (map (\<lambda>e. map (\<lambda>j. if resumed \<and> e = fe \<and> int j < rs then []
                                         else if Suc j = length (dataloader e)
                                                 \<or> (int j + 1) mod gradient_accumulation_steps a = 0
                                              then optimization_step a else [])
                                  [0..<length (dataloader e)]) es) \<and>
           train_global_step s' =
             train_global_step (fst sx) + int (length (filter (\<lambda>m. update_actions m \<noteq> []) T)) \<and>
           accelerator_step s' mod gradient_accumulation_steps a = 0"
proof (induction es arbitrary: sx)
  case Nil
  show ?case
    by (rule exI[of _ "fst sx"], rule exI[of _ "snd sx"], rule exI[of _ "[]"]) (simp add: Nil)
next
  case (Cons e es)
  let ?A = "gradient_accumulation_steps a"
  let ?sk = "resumed \<and> e = fe"
  let ?pat = "\<lambda>e j. if resumed \<and> e = fe \<and> int j < rs then []
                      else if Suc j = length (dataloader e) \<or> (int j + 1) mod ?A = 0
                           then optimization_step a else []"
  obtain s x where sx: "sx = (s, x)" by (cases sx)
  have c0: "accelerator_step s mod ?A = 0" using Cons.prems sx by simp
  have inv: "accelerator_step s mod ?A = (if ?sk \<and> int 0 < rs then 0 else int 0 mod ?A)"
    using c0 by simp
  have R': "?sk \<longrightarrow> rs mod ?A = 0" using R by simp
  from train_batches_pattern[OF A K R' inv, of mp "dataloader e"] obtain s1 T1 where
    r1: "train_batches a mp ?sk rs 0 (dataloader e) s = Inr s1" and t1: "trace s1 = trace s @ T1"
    and u1: "map update_actions T1 =
               map (\<lambda>j. if ?sk \<and> int j < rs then []
                        else if Suc j = 0 + length (dataloader e) \<or> (int j + 1) mod ?A = 0
                             then optimization_step a else []) [0..<0 + length (dataloader e)]"
    and g1: "train_global_step s1 =
               train_global_step s + int (length (filter (\<lambda>m. update_actions m \<noteq> []) T1))"
    and a1: "dataloader e \<noteq> [] \<longrightarrow> accelerator_step s1 mod ?A = 0"
    by (elim exE conjE) (rule that)
  have u1': "map update_actions T1 = map (?pat e) [0..<length (dataloader e)]"
    unfolding u1 by (rule map_cong) auto
  have c1: "accelerator_step s1 mod ?A = 0"
  proof (cases "dataloader e = []")
    case True
    then have "s1 = s" using r1 by simp
    then show ?thesis using c0 by simp
  next
    case False
    then show ?thesis using a1 by simp
  qed
  from tails[of e "train_global_step s1"
                "foldl (\<lambda>x m. learn m x) x (drop (length (trace s)) (trace s1))"]
  obtain x1 where
    tl: "tail e (train_global_step s1)
           (foldl (\<lambda>x m. learn m x) x (drop (length (trace s)) (trace s1))) = (x1, Inr ())"
    by (elim exE) (rule that)
  have c1': "accelerator_step (fst (s1, x1)) mod ?A = 0" using c1 by simp
  from Cons.IH[OF c1'] obtain s' x' T where
    r: "train_epochs a mp dataloader learn tail resumed fe rs es (s1, x1) = Inr (s', x')"
    and t: "trace s' = trace (fst (s1, x1)) @ T"
    and u: "map update_actions T = concat (map (\<lambda>e. map (?pat e) [0..<length (dataloader e)]) es)"
    and g: "train_global_step s' =
              train_global_step (fst (s1, x1)) + int (length (filter (\<lambda>m. update_actions m \<noteq> []) T))"
    and ac: "accelerator_step s' mod ?A = 0"
    by (elim exE conjE) (rule that)
  have run: "train_epochs a mp dataloader learn tail resumed fe rs (e # es) sx = Inr (s', x')"
    unfolding sx by (simp add: r1 tl r)
  have tt: "trace s' = trace (fst sx) @ (T1 @ T)" using t t1 sx by simp
  have uu: "map update_actions (T1 @ T) =
              concat (map (\<lambda>e. map (?pat e) [0..<length (dataloader e)]) (e # es))"
    using u1' u by simp
  have gg: "train_global_step s' =
              train_global_step (fst sx) + int (length (filter (\<lambda>m. update_actions m \<noteq> []) (T1 @ T)))"
    using g g1 sx by simp
  show ?case
    by (rule exI[of _ s'], rule exI[of _ x'], rule exI[of _ "T1 @ T"]) (intro conjI run tt uu gg ac)
qed

text \<open>
  C7, as the code has it, over a whole run, fresh or resumed. A pass through the loop
  body is an optimization-step boundary when its batch is, counted from the first batch
  of its epoch, an \<^verbatim>\<open>accum_steps\<close>-th one, or when it is the last batch of its epoch:
  the count starts again with every epoch. At a boundary the loop does, in this order,
  clip the gradient norm to 1.0, step the optimizer, step the learning-rate schedule,
  zero the gradients, step the EMA model when EMA is enabled, and add 1 to
  \<^verbatim>\<open>global_step\<close>; at every other pass, and for the batches a resumed run skips in
  its first epoch, it does none of these. The run returns when the blocks after each
  epoch do, and \<^verbatim>\<open>global_step\<close> has grown by the number of boundaries. The resume
  step is a multiple of the accumulation factor, as line 663 computes it.
\<close>

theorem optimization_step_boundaries:
  assumes A: "0 < gradient_accumulation_steps a" and K: "checkpointing_steps a \<noteq> 0"
      and R: "resumed \<longrightarrow> rstep mod gradient_accumulation_steps a = 0"
      and tails: "\<And>e g x. \<exists>x'. after_epoch a mp eval_losses pipeline noise_scheduler manual_seed
                              log_images save_pretrained push e g x = (x', Inr ())"
  shows "\<exists>s' x'. train a mp (dataloader :: nat \<Rightarrow> 'b list) learn eval_losses pipeline noise_scheduler manual_seed
                    log_images save_pretrained push resumed fe rstep g x = Inr (s', x') \<and>
           map update_actions (trace s') =
             concat (map (\<lambda>e. map (\<lambda>j. if resumed \<and> e = fe \<and> int j < rstep then []
                                         else if Suc j = length (dataloader e)
                                                 \<or> (int j + 1) mod gradient_accumulation_steps a = 0
                                              then optimization_step a else [])
                                  [0..<length (dataloader e)])
                     [fe..<nat (num_epochs a)]) \<and>
           train_global_step s' =
             g + int (length (filter (\<lambda>u. u \<noteq> []) (map update_actions (trace s'))))"
proof -
  define s0 where "s0 = \<lparr>accelerator_step = 0, train_global_step = g,
                           trace = [] :: 'b micro_step list\<rparr>"
  have c0: "accelerator_step (fst (s0, x)) mod gradient_accumulation_steps a = 0"
    by (simp add: s0_def)
  from train_epochs_pattern[where tail = "after_epoch a mp eval_losses pipeline noise_scheduler
        manual_seed log_images save_pretrained push" and dataloader = dataloader and learn = learn
        and mp = mp and fe = fe and es = "[fe..<nat (num_epochs a)]", OF A K R tails c0]
  obtain s' x' T where
    r: "train_epochs a mp dataloader learn
          (after_epoch a mp eval_losses pipeline noise_scheduler manual_seed log_images
             save_pretrained push) resumed fe rstep [fe..<nat (num_epochs a)] (s0, x) = Inr (s', x')"
    and t: "trace s' = trace (fst (s0, x)) @ T"
    and u: "map update_actions T =
              concat (map (\<lambda>e. map (\<lambda>j. if resumed \<and> e = fe \<and> int j < rstep then []
                                         else if Suc j = length (dataloader e)
                                                 \<or> (int j + 1) mod gradient_accumulation_steps a = 0
                                              then optimization_step a else [])
                                  [0..<length (dataloader e)])
                     [fe..<nat (num_epochs a)])"
    and g: "train_global_step s' =
              train_global_step (fst (s0, x)) + int (length (filter (\<lambda>m. update_actions m \<noteq> []) T))"
    by (elim exE conjE) (rule that)
  have tr: "trace s' = T" using t by (simp add: s0_def)
  have run: "train a mp dataloader learn eval_losses pipeline noise_scheduler manual_seed
               log_images save_pretrained push resumed fe rstep g x = Inr (s', x')"
    unfolding train_def using r by (simp add: s0_def)
  have fl: "length (filter (\<lambda>u. u \<noteq> []) (map update_actions T)) =
            length (filter (\<lambda>m. update_actions m \<noteq> []) T)"
    by (simp add: filter_map comp_def)
  have gs: "train_global_step s' =
              g + int (length (filter (\<lambda>u. u \<noteq> []) (map update_actions (trace s'))))"
    unfolding tr fl using g by (simp add: s0_def)
  show ?thesis
    by (rule exI[of _ s'], rule exI[of _ x']) (intro conjI run u[folded tr] gs)
qed

text \<open>The theorem on a run of two epochs of three batches with accumulation factor 2,
  resumed after one optimization step (epoch 0, resume step 2), the blocks after each
  epoch returning: the two skipped batches do nothing, the last batch of epoch 0 is a
  boundary, and in epoch 1 the second and the third pass are, so \<^verbatim>\<open>global_step\<close>
  ends at 1 + 3.\<close>

theorem optimization_step_boundaries_witness:
  "map update_actions (trace (fst (projr (train
      \<lparr>gradient_accumulation_steps = 2, use_ema = True, checkpointing_steps = 500,
        num_epochs = 2, save_images_epochs = 1, save_model_epochs = 1, eval_batch_size = 4,
        ddpm_num_inference_steps = 10, push_to_hub = False, evaluate = False\<rparr>
      True (\<lambda>e. [10 * e, 10 * e + 1, 10 * e + 2]) (\<lambda>m x. x) (\<lambda>p r. (Inr [], r))
      (\<lambda>p c s r b n. (Inr (p + s), r)) () (\<lambda>seed. seed) (\<lambda>i e g. True) (\<lambda>p c. True) True
      True 0 2 1
      \<lparr>weights = \<lparr>live = (1::int), shadow_params = 2, temp_stored_params = None\<rparr>,
        torch_rng = (5::int)\<rparr>)))) =
     [[],
      [],
      [ClipGradNorm 1, OptimizerStep, LrSchedulerStep, ZeroGrad, EmaStep, GlobalStepIncrement],
      [],
      [ClipGradNorm 1, OptimizerStep, LrSchedulerStep, ZeroGrad, EmaStep, GlobalStepIncrement],
      [ClipGradNorm 1, OptimizerStep, LrSchedulerStep, ZeroGrad, EmaStep, GlobalStepIncrement]] \<and>
   train_global_step (fst (projr (train
      \<lparr>gradient_accumulation_steps = 2, use_ema = True, checkpointing_steps = 500,
        num_epochs = 2, save_images_epochs = 1, save_model_epochs = 1, eval_batch_size = 4,
        ddpm_num_inference_steps = 10, push_to_hub = False, evaluate = False\<rparr>
      True (\<lambda>e. [10 * e, 10 * e + 1, 10 * e + 2]) (\<lambda>m x. x) (\<lambda>p r. (Inr [], r))
      (\<lambda>p c s r b n. (Inr (p + s), r)) () (\<lambda>seed. seed) (\<lambda>i e g. True) (\<lambda>p c. True) True
      True 0 2 1
      \<lparr>weights = \<lparr>live = (1::int), shadow_params = 2, temp_stored_params = None\<rparr>,
        torch_rng = (5::int)\<rparr>))) = 4"
proof -
  let ?a = "\<lparr>gradient_accumulation_steps = 2, use_ema = True, checkpointing_steps = 500,
        num_epochs = 2, save_images_epochs = 1, save_model_epochs = 1, eval_batch_size = 4,
        ddpm_num_inference_steps = 10, push_to_hub = False, evaluate = False\<rparr>"
  let ?dl = "\<lambda>e::nat. [10 * e, 10 * e + 1, 10 * e + 2]"
  let ?learn = "\<lambda>(m :: nat micro_step) (x :: (int, int) world). x"
  let ?ev = "\<lambda>(p::int) (r::int). (Inr [] :: py_error + real list, r)"
  let ?pl = "\<lambda>(p::int) (c::unit) (s::int) (r::int) (b::int) (n::int). (Inr (p + s) :: py_error + int, r)"
  let ?ms = "\<lambda>seed::int. seed"
  let ?li = "\<lambda>(i::int) (e::int) (g::int). True"
  let ?sp = "\<lambda>(p::int) (c::unit). True"
  let ?x = "\<lparr>weights = \<lparr>live = (1::int), shadow_params = 2, temp_stored_params = None\<rparr>,
             torch_rng = (5::int)\<rparr>"
  have A: "0 < gradient_accumulation_steps ?a" and K: "checkpointing_steps ?a \<noteq> 0" by simp_all
  have R: "True \<longrightarrow> (2::int) mod gradient_accumulation_steps ?a = 0" by simp
  have tails: "\<exists>x'. after_epoch ?a True ?ev ?pl () ?ms ?li ?sp True e g x = (x', Inr ())" for e g x
    by (simp add: after_epoch_def evaluation_def end_of_epoch_def sample_images_def save_model_def
        store_def copy_to_def restore_def Let_def)
  have e2: "[0..<nat (num_epochs ?a)] = [0, 1]" by (simp add: upt_rec numeral_2_eq_2)
  have l3: "[0..<length (?dl e)] = [0, 1, 2]" for e by (simp add: upt_rec)
  from optimization_step_boundaries
         [where a = ?a and mp = True and dataloader = ?dl and learn = ?learn
            and eval_losses = ?ev and pipeline = ?pl and noise_scheduler = "()"
            and manual_seed = ?ms and log_images = ?li and save_pretrained = ?sp and push = True
            and resumed = True and fe = 0 and rstep = 2 and g = 1 and x = ?x,
          OF A K R tails]
  obtain s' x' where
    r: "train ?a True ?dl ?learn ?ev ?pl () ?ms ?li ?sp True True 0 2 1 ?x = Inr (s', x')"
    and up: "map update_actions (trace s') =
               concat (map (\<lambda>e. map (\<lambda>j. if True \<and> e = 0 \<and> int j < 2 then []
                                         else if Suc j = length (?dl e)
                                                 \<or> (int j + 1) mod gradient_accumulation_steps ?a = 0
                                              then optimization_step ?a else [])
                                  [0..<length (?dl e)])
                       [0..<nat (num_epochs ?a)])"
    and gs: "train_global_step s' =
               1 + int (length (filter (\<lambda>u. u \<noteq> []) (map update_actions (trace s'))))"
    by (elim exE conjE) (rule that)
  have up': "map update_actions (trace s') =
     [[],
      [],
      [ClipGradNorm 1, OptimizerStep, LrSchedulerStep, ZeroGrad, EmaStep, GlobalStepIncrement],
      [],
      [ClipGradNorm 1, OptimizerStep, LrSchedulerStep, ZeroGrad, EmaStep, GlobalStepIncrement],
      [ClipGradNorm 1, OptimizerStep, LrSchedulerStep, ZeroGrad, EmaStep, GlobalStepIncrement]]"
    unfolding up e2 l3 by (simp add: optimization_step_def)
  have gs': "train_global_step s' = 4" unfolding gs up' by simp
  show ?thesis unfolding r using up' gs' by simp
qed

text \<open>C7 as the specification words it, exactly once per \<^verbatim>\<open>accum_steps\<close>
  micro-steps, fails at the end of an epoch whose length is not a multiple of the
  accumulation factor: in a run of one epoch of three batches with factor 2 the third
  micro-step is a boundary right after the second, and three micro-steps make two
  optimization steps.\<close>

theorem optimization_step_short_group_counterexample:
  "map update_actions (trace (fst (projr (train
      \<lparr>gradient_accumulation_steps = 2, use_ema = True, checkpointing_steps = 500,
        num_epochs = 1, save_images_epochs = 1, save_model_epochs = 1, eval_batch_size = 4,
        ddpm_num_inference_steps = 10, push_to_hub = False, evaluate = False\<rparr>
      True (\<lambda>e. [10, 11, 12 :: nat]) (\<lambda>m x. x) (\<lambda>p r. (Inr [], r))
      (\<lambda>p c s r b n. (Inr (p + s), r)) () (\<lambda>seed. seed) (\<lambda>i e g. True) (\<lambda>p c. True) True
      False 0 0 0
      \<lparr>weights = \<lparr>live = (1::int), shadow_params = 2, temp_stored_params = None\<rparr>,
        torch_rng = (5::int)\<rparr>)))) =
     [[],
      [ClipGradNorm 1, OptimizerStep, LrSchedulerStep, ZeroGrad, EmaStep, GlobalStepIncrement],
      [ClipGradNorm 1, OptimizerStep, LrSchedulerStep, ZeroGrad, EmaStep, GlobalStepIncrement]] \<and>
   train_global_step (fst (projr (train
      \<lparr>gradient_accumulation_steps = 2, use_ema = True, checkpointing_steps = 500,
        num_epochs = 1, save_images_epochs = 1, save_model_epochs = 1, eval_batch_size = 4,
        ddpm_num_inference_steps = 10, push_to_hub = False, evaluate = False\<rparr>
      True (\<lambda>e. [10, 11, 12 :: nat]) (\<lambda>m x. x) (\<lambda>p r. (Inr [], r))
      (\<lambda>p c s r b n. (Inr (p + s), r)) () (\<lambda>seed. seed) (\<lambda>i e g. True) (\<lambda>p c. True) True
      False 0 0 0
      \<lparr>weights = \<lparr>live = (1::int), shadow_params = 2, temp_stored_params = None\<rparr>,
        torch_rng = (5::int)\<rparr>))) = 2"
  by (simp add: train_def after_epoch_def evaluation_def end_of_epoch_def sample_images_def
      save_model_def store_def copy_to_def restore_def
      train_step_def do_sync_def optimizer_step_def lr_scheduler_step_def
      optimizer_zero_grad_def update_actions_def is_update_def Let_def upt_rec)

section \<open>What a resumed run skips and consumes\<close>

lemma sync_count_step:
  fixes A c n :: int
  assumes "0 < A" "0 \<le> n"
  shows "(if (c + 1) mod A = 0 then 1 else 0) + ((c + 1) mod A + n) div A = (c mod A + (n + 1)) div A"
proof -
  let ?m = "c mod A"
  have m: "0 \<le> ?m" "?m < A" using assms(1) by simp_all
  have e: "(c + 1) mod A = (?m + 1) mod A" by (simp add: mod_add_left_eq)
  show ?thesis
  proof (cases "?m + 1 = A")
    case True
    then have z: "(c + 1) mod A = 0" using e by simp
    have mA: "?m + (n + 1) = n + A" using True by simp
    have "(?m + (n + 1)) div A = (n + A) div A" by (simp only: mA)
    also have "\<dots> = n div A + 1" using assms(1) by simp
    finally show ?thesis using z by simp
  next
    case False
    then have lt: "?m + 1 < A" using m by simp
    then have v: "(c + 1) mod A = ?m + 1" using e m by simp
    then have "(c + 1) mod A \<noteq> 0" using m by simp
    then show ?thesis using v by (simp add: algebra_simps)
  qed
qed

lemma skip_entry_not_stepped: "\<not> stepped \<lparr>batch = b, skipped = True, actions = []\<rparr>"
  by (simp add: stepped_def)

lemma train_batches_trace:
  assumes A: "0 < gradient_accumulation_steps a" and K: "checkpointing_steps a \<noteq> 0"
  shows "\<exists>s' T. train_batches a mp sk rs i bs s = Inr s' \<and> trace s' = trace s @ T \<and>
           map batch T = bs \<and>
           map skipped T = map (\<lambda>j. sk \<and> int j < rs) [i..<i + length bs] \<and>
           list_all (\<lambda>m. skipped m \<longrightarrow> actions m = []) T \<and>
           train_global_step s' = train_global_step s + int (length (filter stepped T)) \<and>
           (bs \<noteq> [] \<and> \<not> (sk \<and> int (i + length bs - 1) < rs) \<longrightarrow>
              accelerator_step s' = 0 \<and> stepped (last T))"
proof (induction bs arbitrary: i s)
  case Nil
  show ?case by simp
next
  case (Cons b bs)
  have upt: "[i..<i + length (b # bs)] = i # [Suc i..<Suc i + length bs]"
    by (simp add: upt_conv_Cons del: upt_Suc)
  show ?case
  proof (cases "sk \<and> int i < rs")
    case True
    let ?m = "\<lparr>batch = b, skipped = True, actions = []\<rparr>"
    let ?s1 = "s\<lparr>trace := trace s @ [?m]\<rparr>"
    from Cons.IH[of "Suc i" ?s1] obtain s' T where
      r: "train_batches a mp sk rs (Suc i) bs ?s1 = Inr s'" and t: "trace s' = trace ?s1 @ T"
      and bt: "map batch T = bs"
      and sk: "map skipped T = map (\<lambda>j. sk \<and> int j < rs) [Suc i..<Suc i + length bs]"
      and ac: "list_all (\<lambda>m. skipped m \<longrightarrow> actions m = []) T"
      and gs: "train_global_step s' = train_global_step ?s1 + int (length (filter stepped T))"
      and la: "bs \<noteq> [] \<and> \<not> (sk \<and> int (Suc i + length bs - 1) < rs) \<longrightarrow>
                 accelerator_step s' = 0 \<and> stepped (last T)"
      by blast
    have run: "train_batches a mp sk rs i (b # bs) s = Inr s'" using True A r by simp
    have tne: "bs \<noteq> [] \<Longrightarrow> T \<noteq> []" using bt by auto
    have body: "trace s' = trace s @ (?m # T) \<and> map batch (?m # T) = b # bs \<and>
          map skipped (?m # T) = map (\<lambda>j. sk \<and> int j < rs) [i..<i + length (b # bs)] \<and>
          list_all (\<lambda>m. skipped m \<longrightarrow> actions m = []) (?m # T) \<and>
          train_global_step s' = train_global_step s + int (length (filter stepped (?m # T))) \<and>
          (b # bs \<noteq> [] \<and> \<not> (sk \<and> int (i + length (b # bs) - 1) < rs) \<longrightarrow>
              accelerator_step s' = 0 \<and> stepped (last (?m # T)))"
      unfolding upt using t bt sk ac gs la True tne
      by (auto simp: skip_entry_not_stepped simp del: upt_Suc)
    show ?thesis by (rule exI[of _ s'], rule exI[of _ "?m # T"], rule conjI[OF run body])
  next
    case False
    from A have nz: "gradient_accumulation_steps a \<noteq> 0 \<or> bs = []" by simp
    obtain m where
      st0: "train_step a mp b (bs = []) s =
              Inr \<lparr>accelerator_step = (if bs = [] then 0 else accelerator_step s + 1),
                 train_global_step = train_global_step s
                   + (if bs = [] \<or> (accelerator_step s + 1) mod gradient_accumulation_steps a = 0
                      then 1 else 0),
                 trace = trace s @ [m]\<rparr>"
      and mb: "batch m = b" and ms: "\<not> skipped m"
      and sp: "stepped m \<longleftrightarrow> bs = [] \<or> (accelerator_step s + 1) mod gradient_accumulation_steps a = 0"
      by (rule train_step_result[OF nz K, of mp b s])
    define s1' where "s1' = \<lparr>accelerator_step = (if bs = [] then 0 else accelerator_step s + 1),
                 train_global_step = train_global_step s
                   + (if bs = [] \<or> (accelerator_step s + 1) mod gradient_accumulation_steps a = 0
                      then 1 else 0),
                 trace = trace s @ [m]\<rparr>"
    have st: "train_step a mp b (bs = []) s = Inr s1'" using st0 by (simp add: s1'_def)
    have s1: "s1' = \<lparr>accelerator_step = (if bs = [] then 0 else accelerator_step s + 1),
                 train_global_step = train_global_step s
                   + (if bs = [] \<or> (accelerator_step s + 1) mod gradient_accumulation_steps a = 0
                      then 1 else 0),
                 trace = trace s @ [m]\<rparr>" by (simp add: s1'_def)
    from Cons.IH[of "Suc i" s1'] obtain s' T where
      r: "train_batches a mp sk rs (Suc i) bs s1' = Inr s'" and t: "trace s' = trace s1' @ T"
      and bt: "map batch T = bs"
      and sk: "map skipped T = map (\<lambda>j. sk \<and> int j < rs) [Suc i..<Suc i + length bs]"
      and ac: "list_all (\<lambda>m. skipped m \<longrightarrow> actions m = []) T"
      and gs: "train_global_step s' = train_global_step s1' + int (length (filter stepped T))"
      and la: "bs \<noteq> [] \<and> \<not> (sk \<and> int (Suc i + length bs - 1) < rs) \<longrightarrow>
                 accelerator_step s' = 0 \<and> stepped (last T)"
      by blast
    have nsk: "(sk \<and> int i < rs) = False" using False by simp
    have run: "train_batches a mp sk rs i (b # bs) s = Inr s'"
      by (simp only: train_batches.simps nsk if_False st sum.case r)
    have tne: "bs \<noteq> [] \<Longrightarrow> T \<noteq> []" using bt by auto
    have te: "bs = [] \<Longrightarrow> T = [] \<and> s' = s1'" using bt r by auto
    have body: "trace s' = trace s @ (m # T) \<and> map batch (m # T) = b # bs \<and>
          map skipped (m # T) = map (\<lambda>j. sk \<and> int j < rs) [i..<i + length (b # bs)] \<and>
          list_all (\<lambda>m. skipped m \<longrightarrow> actions m = []) (m # T) \<and>
          train_global_step s' = train_global_step s + int (length (filter stepped (m # T))) \<and>
          (b # bs \<noteq> [] \<and> \<not> (sk \<and> int (i + length (b # bs) - 1) < rs) \<longrightarrow>
              accelerator_step s' = 0 \<and> stepped (last (m # T)))"
    proof (cases "bs = []")
      case True
      then show ?thesis unfolding upt using te t s1 mb ms sp False by (auto simp del: upt_Suc)
    next
      case bne: False
      then show ?thesis unfolding upt using t bt sk ac gs la s1 mb ms sp False tne
        by (auto simp del: upt_Suc)
    qed
    show ?thesis by (rule exI[of _ s'], rule exI[of _ "m # T"], rule conjI[OF run body])
  qed
qed

lemma train_inner_noskip:
  assumes A: "0 < gradient_accumulation_steps a" and K: "checkpointing_steps a \<noteq> 0"
  shows "\<exists>s' T. train_inner a mp False rs i xs s = Inr s' \<and> trace s' = trace s @ T \<and>
           map batch T = xs \<and>
           accelerator_step s' = accelerator_step s + int (length xs) \<and>
           train_global_step s' = train_global_step s
             + (accelerator_step s mod gradient_accumulation_steps a + int (length xs))
                 div gradient_accumulation_steps a \<and>
           train_global_step s' = train_global_step s + int (length (filter stepped T)) \<and>
           (xs \<noteq> [] \<and> (accelerator_step s + int (length xs)) mod gradient_accumulation_steps a = 0
              \<longrightarrow> stepped (last T))"
proof (induction xs arbitrary: i s)
  case Nil
  have "(accelerator_step s mod gradient_accumulation_steps a) div gradient_accumulation_steps a = 0"
    using A by simp
  then show ?case by simp
next
  case (Cons x xs)
  let ?A = "gradient_accumulation_steps a"
  from A have nz: "?A \<noteq> 0 \<or> False" by simp
  obtain m where
    st0: "train_step a mp x False s =
            Inr \<lparr>accelerator_step = (if False then 0 else accelerator_step s + 1),
               train_global_step = train_global_step s
                 + (if False \<or> (accelerator_step s + 1) mod ?A = 0 then 1 else 0),
               trace = trace s @ [m]\<rparr>"
    and mb: "batch m = x"
    and sp0: "stepped m \<longleftrightarrow> False \<or> (accelerator_step s + 1) mod ?A = 0"
    by (rule train_step_result[OF nz K, of mp x s])
  define s1 where "s1 = \<lparr>accelerator_step = accelerator_step s + 1,
               train_global_step = train_global_step s
                 + (if (accelerator_step s + 1) mod ?A = 0 then 1 else 0),
               trace = trace s @ [m]\<rparr>"
  have st: "train_step a mp x False s = Inr s1" using st0 by (simp add: s1_def)
  have sp: "stepped m \<longleftrightarrow> (accelerator_step s + 1) mod ?A = 0" using sp0 by simp
  note s1 = s1_def
  from Cons.IH[of "Suc i" s1] obtain s' T where
    r: "train_inner a mp False rs (Suc i) xs s1 = Inr s'" and t: "trace s' = trace s1 @ T"
    and bt: "map batch T = xs"
    and ac: "accelerator_step s' = accelerator_step s1 + int (length xs)"
    and gc: "train_global_step s' = train_global_step s1
               + (accelerator_step s1 mod ?A + int (length xs)) div ?A"
    and gs: "train_global_step s' = train_global_step s1 + int (length (filter stepped T))"
    and la: "xs \<noteq> [] \<and> (accelerator_step s1 + int (length xs)) mod ?A = 0 \<longrightarrow> stepped (last T)"
    by blast
  have run: "train_inner a mp False rs i (x # xs) s = Inr s'" using st r by simp
  have cnt: "(if (accelerator_step s + 1) mod ?A = 0 then 1 else 0)
               + ((accelerator_step s + 1) mod ?A + int (length xs)) div ?A
             = (accelerator_step s mod ?A + (int (length xs) + 1)) div ?A"
    by (rule sync_count_step[OF A]) simp
  have gc': "train_global_step s' = train_global_step s
               + (accelerator_step s mod ?A + int (length (x # xs))) div ?A"
    using gc cnt by (simp add: s1 add.commute)
  have tne: "xs \<noteq> [] \<Longrightarrow> T \<noteq> []" using bt by auto
  have te: "xs = [] \<Longrightarrow> T = []" using bt by auto
  have la': "x # xs \<noteq> [] \<and> (accelerator_step s + int (length (x # xs))) mod ?A = 0
               \<longrightarrow> stepped (last (m # T))"
  proof (cases "xs = []")
    case True
    then show ?thesis using te sp by simp
  next
    case False
    then show ?thesis using la tne by (simp add: s1 algebra_simps)
  qed
  have b1: "trace s' = trace s @ (m # T)" "map batch (m # T) = x # xs"
        "accelerator_step s' = accelerator_step s + int (length (x # xs))"
        "train_global_step s' = train_global_step s + int (length (filter stepped (m # T)))"
    using t bt ac gs mb sp by (simp_all add: s1)
  show ?case
    by (rule exI[of _ s'], rule exI[of _ "m # T"]) (intro conjI run b1 gc' la')
qed

lemma train_batches_split:
  "train_batches a mp False rs i (xs @ y # ys) s =
     (case train_inner a mp False rs i xs s of
        Inl e \<Rightarrow> Inl e
      | Inr s1 \<Rightarrow> train_batches a mp False rs (i + length xs) (y # ys) s1)"
proof (induction xs arbitrary: i s)
  case Nil
  show ?case by simp
next
  case (Cons x xs)
  show ?case
  proof (cases "train_step a mp x False s")
    case (Inl e)
    then show ?thesis by simp
  next
    case (Inr s1)
    have ix: "Suc i + length xs = i + length (x # xs)" by simp
    show ?thesis using Inr Cons[of "Suc i" s1] unfolding ix by simp
  qed
qed

lemma ceil_div_steps:
  fixes A n :: int
  assumes "0 < A" "0 < n"
  shows "- ((- n) div A) = (n - 1) div A + 1"
proof -
  define q where "q = (n - 1) div A"
  define t where "t = (n - 1) mod A"
  have t: "0 \<le> t" "t < A" using assms(1) by (simp_all add: t_def)
  have n: "n - 1 = A * q + t" by (simp add: q_def t_def)
  have "- n = A * (- (q + 1)) + (A - 1 - t)" using n by (simp add: algebra_simps)
  moreover have "0 \<le> A - 1 - t" "A - 1 - t < A" using t by simp_all
  ultimately have "(- n) div A = - (q + 1)"
    by (metis div_pos_pos_trivial add.commute div_mult_self2 add.right_neutral assms(1) less_irrefl mult.commute)
  then show ?thesis by (simp add: q_def)
qed

lemma skipped_flags_none:
  "map skipped T = map (\<lambda>j. False) js \<Longrightarrow> list_all (\<lambda>m. \<not> skipped m) T"
proof (induction T arbitrary: js)
  case Nil
  then show ?case by simp
next
  case (Cons m T)
  then obtain j js' where "js = j # js'" by (cases js) auto
  with Cons show ?case by auto
qed

lemma epoch_noskip:
  assumes A: "0 < gradient_accumulation_steps a" and K: "checkpointing_steps a \<noteq> 0"
      and ne: "bs \<noteq> []" and a0: "accelerator_step s mod gradient_accumulation_steps a = 0"
  shows "\<exists>s' T. train_batches a mp False rs 0 bs s = Inr s' \<and> trace s' = trace s @ T \<and>
           map batch T = bs \<and> list_all (\<lambda>m. \<not> skipped m) T \<and>
           accelerator_step s' = 0 \<and>
           train_global_step s' = train_global_step s
             + ((int (length bs) - 1) div gradient_accumulation_steps a + 1) \<and>
           train_global_step s' = train_global_step s + int (length (filter stepped T)) \<and>
           T \<noteq> [] \<and> stepped (last T)"
proof -
  let ?A = "gradient_accumulation_steps a"
  from train_batches_trace[OF A K, of mp False rs 0 bs s] obtain s' T where
    r: "train_batches a mp False rs 0 bs s = Inr s'" and t: "trace s' = trace s @ T"
    and bt: "map batch T = bs"
    and sk: "map skipped T = map (\<lambda>j. False \<and> int j < rs) [0..<0 + length bs]"
    and gs: "train_global_step s' = train_global_step s + int (length (filter stepped T))"
    and la: "bs \<noteq> [] \<and> \<not> (False \<and> int (0 + length bs - 1) < rs) \<longrightarrow>
               accelerator_step s' = 0 \<and> stepped (last T)"
    by blast
  have ns: "list_all (\<lambda>m. \<not> skipped m) T" using sk by (intro skipped_flags_none[of T "[0..<0 + length bs]"]) simp
  have tne: "T \<noteq> []" using bt ne by auto
  have ac: "accelerator_step s' = 0" and ls: "stepped (last T)" using la ne by simp_all
  have bs: "bs = butlast bs @ last bs # []" using ne by simp
  from train_inner_noskip[OF A K, of mp rs 0 "butlast bs" s] obtain s1 where
    r1: "train_inner a mp False rs 0 (butlast bs) s = Inr s1"
    and a1: "accelerator_step s1 = accelerator_step s + int (length (butlast bs))"
    and g1: "train_global_step s1 = train_global_step s
               + (accelerator_step s mod ?A + int (length (butlast bs))) div ?A"
    by blast
  have "train_batches a mp False rs 0 bs s =
          train_batches a mp False rs (0 + length (butlast bs)) [last bs] s1"
    by (subst bs, subst train_batches_split) (simp add: r1)
  then have r2: "train_batches a mp False rs (0 + length (butlast bs)) [last bs] s1 = Inr s'"
    using r by simp
  have nz: "?A \<noteq> 0 \<or> True" by simp
  obtain m where
    st: "train_step a mp (last bs) True s1 =
           Inr \<lparr>accelerator_step = (if True then 0 else accelerator_step s1 + 1),
                train_global_step = train_global_step s1
                  + (if True \<or> (accelerator_step s1 + 1) mod ?A = 0 then 1 else 0),
                trace = trace s1 @ [m]\<rparr>"
    by (rule train_step_result[OF nz K, of mp "last bs" s1])
  have "train_global_step s' = train_global_step s1 + 1" using r2 st by auto
  moreover have "int (length (butlast bs)) = int (length bs) - 1" using ne by (cases bs rule: rev_cases) simp_all
  ultimately have gc: "train_global_step s' = train_global_step s + ((int (length bs) - 1) div ?A + 1)"
    using g1 a0 by simp
  show ?thesis
    by (rule exI[of _ s'], rule exI[of _ T]) (intro conjI r t bt ns ac gc gs tne ls)
qed

lemma train_epochs_noskip:
  fixes dataloader :: "nat \<Rightarrow> 'b list"
  assumes A: "0 < gradient_accumulation_steps a" and K: "checkpointing_steps a \<noteq> 0"
      and len: "\<And>e. length (dataloader e) = len" "0 < len"
      and tails: "\<And>e g x. \<exists>x'. tail e g x = (x', Inr ())"
      and nf: "resumed \<longrightarrow> fe \<notin> set es"
      and a0: "accelerator_step s = 0"
  shows "\<exists>s' x' T. train_epochs a mp dataloader learn tail resumed fe rs es (s, x) = Inr (s', x') \<and>
           trace s' = trace s @ T \<and>
           map batch T = concat (map dataloader es) \<and> list_all (\<lambda>m. \<not> skipped m) T \<and>
           accelerator_step s' = 0 \<and>
           train_global_step s' = train_global_step s
             + int (length es) * ((int len - 1) div gradient_accumulation_steps a + 1) \<and>
           train_global_step s' = train_global_step s + int (length (filter stepped T)) \<and>
           (es \<noteq> [] \<longrightarrow> T \<noteq> [] \<and> stepped (last T))"
  using nf a0
proof (induction es arbitrary: s x)
  case Nil
  show ?case
    by (rule exI[of _ s], rule exI[of _ x], rule exI[of _ "[]"]) (simp add: Nil.prems(2))
next
  case (Cons e es)
  let ?A = "gradient_accumulation_steps a"
  have sk: "(resumed \<and> e = fe) = False" using Cons.prems(1) by auto
  have ne: "dataloader e \<noteq> []" using len(1)[of e] len(2) by auto
  have am: "accelerator_step s mod ?A = 0" using Cons.prems(2) by simp
  from epoch_noskip[OF A K ne am, of mp rs] obtain s1 T1 where
    r1: "train_batches a mp False rs 0 (dataloader e) s = Inr s1" and t1: "trace s1 = trace s @ T1"
    and b1: "map batch T1 = dataloader e" and n1: "list_all (\<lambda>m. \<not> skipped m) T1"
    and a1: "accelerator_step s1 = 0"
    and g1: "train_global_step s1 = train_global_step s + ((int (length (dataloader e)) - 1) div ?A + 1)"
    and c1: "train_global_step s1 = train_global_step s + int (length (filter stepped T1))"
    and l1: "T1 \<noteq> []" "stepped (last T1)"
    by (elim exE conjE) (rule that)
  from tails[of e "train_global_step s1"
                "foldl (\<lambda>x m. learn m x) x (drop (length (trace s)) (trace s1))"]
  obtain x1 where
    tl: "tail e (train_global_step s1)
           (foldl (\<lambda>x m. learn m x) x (drop (length (trace s)) (trace s1))) = (x1, Inr ())"
    by (elim exE) (rule that)
  have nf': "resumed \<longrightarrow> fe \<notin> set es" using Cons.prems(1) by auto
  from Cons.IH[OF nf' a1, of x1] obtain s' x' T where
    r: "train_epochs a mp dataloader learn tail resumed fe rs es (s1, x1) = Inr (s', x')"
    and t: "trace s' = trace s1 @ T"
    and b: "map batch T = concat (map dataloader es)" and n: "list_all (\<lambda>m. \<not> skipped m) T"
    and ac: "accelerator_step s' = 0"
    and g: "train_global_step s' = train_global_step s1 + int (length es) * ((int len - 1) div ?A + 1)"
    and c: "train_global_step s' = train_global_step s1 + int (length (filter stepped T))"
    and l: "es \<noteq> [] \<longrightarrow> T \<noteq> [] \<and> stepped (last T)"
    by (elim exE conjE) (rule that)
  have run: "train_epochs a mp dataloader learn tail resumed fe rs (e # es) (s, x) = Inr (s', x')"
    by (simp add: sk r1 tl r)
  have tt: "trace s' = trace s @ (T1 @ T)" using t t1 by simp
  have bb: "map batch (T1 @ T) = concat (map dataloader (e # es))" using b1 b by simp
  have nn: "list_all (\<lambda>m. \<not> skipped m) (T1 @ T)" using n1 n by simp
  have gg: "train_global_step s' = train_global_step s
              + int (length (e # es)) * ((int len - 1) div ?A + 1)"
    using g g1 len(1)[of e] by (simp add: algebra_simps)
  have cc: "train_global_step s' = train_global_step s + int (length (filter stepped (T1 @ T)))"
    using c c1 by simp
  have ll: "e # es \<noteq> [] \<longrightarrow> T1 @ T \<noteq> [] \<and> stepped (last (T1 @ T))"
  proof (cases "T = []")
    case True
    then show ?thesis using l1 by simp
  next
    case False
    then have "es \<noteq> []" using b by auto
    then show ?thesis using l False by simp
  qed
  show ?case
    by (rule exI[of _ s'], rule exI[of _ x'], rule exI[of _ "T1 @ T"])
       (intro conjI run tt bb nn ac gg cc ll)
qed

lemma train_epochs_append:
  "train_epochs a mp dataloader learn tail resumed fe rs (es1 @ es2) sx =
     (case train_epochs a mp dataloader learn tail resumed fe rs es1 sx of
        Inl e \<Rightarrow> Inl e
      | Inr sx1 \<Rightarrow> train_epochs a mp dataloader learn tail resumed fe rs es2 sx1)"
proof (induction es1 arbitrary: sx)
  case Nil
  show ?case by simp
next
  case (Cons e es1)
  show ?case
  proof (cases "train_batches a mp (resumed \<and> e = fe) rs 0 (dataloader e) (fst sx)")
    case (Inl err)
    then show ?thesis by simp
  next
    case tb: (Inr s1)
    obtain x1 r1 where
      tl: "tail e (train_global_step s1)
             (foldl (\<lambda>x m. learn m x) (snd sx) (drop (length (trace (fst sx))) (trace s1))) = (x1, r1)"
      by (cases "tail e (train_global_step s1)
             (foldl (\<lambda>x m. learn m x) (snd sx) (drop (length (trace (fst sx))) (trace s1)))")
    show ?thesis
    proof (cases r1)
      case (Inl err)
      then show ?thesis using tb tl by simp
    next
      case (Inr u)
      then show ?thesis using tb tl Cons[of "(s1, x1)"] by simp
    qed
  qed
qed

lemma filter_skipped_prefix:
  "map skipped T = map (\<lambda>j. int j < rs) [i..<i + length T] \<Longrightarrow>
   filter skipped T = take (nat rs - i) T \<and> filter (\<lambda>m. \<not> skipped m) T = drop (nat rs - i) T"
proof (induction T arbitrary: i)
  case Nil
  show ?case by simp
next
  case (Cons m T)
  have upt: "[i..<i + length (m # T)] = i # [Suc i..<Suc i + length T]"
    by (simp add: upt_conv_Cons del: upt_Suc)
  from Cons.prems have sm: "skipped m \<longleftrightarrow> int i < rs"
    and rest: "map skipped T = map (\<lambda>j. int j < rs) [Suc i..<Suc i + length T]"
    unfolding upt by simp_all
  note IH = Cons.IH[OF rest]
  show ?case
  proof (cases "int i < rs")
    case True
    then have "nat rs - i = Suc (nat rs - Suc i)" by linarith
    then show ?thesis using IH sm True by simp
  next
    case False
    then have z: "nat rs - i = 0" "nat rs - Suc i = 0" by linarith+
    then show ?thesis using IH sm False by simp
  qed
qed

lemma resumed_trace:
  fixes dataloader :: "nat \<Rightarrow> 'b list"
  assumes A: "0 < gradient_accumulation_steps a" and K: "checkpointing_steps a \<noteq> 0"
      and len: "\<And>e. length (dataloader e) = len" "0 < len"
      and tails: "\<And>e g x. \<exists>x'. tail e g x = (x', Inr ())"
      and fe: "fe < N" and rs: "0 \<le> rs" "rs < int len"
  shows "\<exists>sR xR. train_epochs a mp dataloader learn tail True fe rs [fe..<N]
                    (\<lparr>accelerator_step = 0, train_global_step = g, trace = []\<rparr>, x) = Inr (sR, xR) \<and>
           map batch (filter skipped (trace sR)) = take (nat rs) (dataloader fe) \<and>
           list_all (\<lambda>m. actions m = []) (filter skipped (trace sR)) \<and>
           map batch (filter (\<lambda>m. \<not> skipped m) (trace sR)) =
             drop (nat rs) (dataloader fe) @ concat (map dataloader [Suc fe..<N])"
proof -
  define s0 where "s0 = \<lparr>accelerator_step = 0, train_global_step = g,
                           trace = [] :: 'b micro_step list\<rparr>"
  have s0t: "trace s0 = []" by (simp add: s0_def)
  have es: "[fe..<N] = fe # [Suc fe..<N]" using fe by (simp add: upt_conv_Cons)
  from train_batches_trace[OF A K, of mp True rs 0 "dataloader fe" s0] obtain s1 T1 where
    r1: "train_batches a mp True rs 0 (dataloader fe) s0 = Inr s1" and t1: "trace s1 = trace s0 @ T1"
    and b1: "map batch T1 = dataloader fe"
    and k1: "map skipped T1 = map (\<lambda>j. True \<and> int j < rs) [0..<0 + length (dataloader fe)]"
    and e1: "list_all (\<lambda>m. skipped m \<longrightarrow> actions m = []) T1"
    and l1: "dataloader fe \<noteq> [] \<and> \<not> (True \<and> int (0 + length (dataloader fe) - 1) < rs) \<longrightarrow>
               accelerator_step s1 = 0 \<and> stepped (last T1)"
    by (elim exE conjE) (rule that)
  have lT: "length T1 = len" using b1 len(1)[of fe] by (metis length_map)
  have a1: "accelerator_step s1 = 0" using l1 len(1)[of fe] len(2) rs by auto
  from tails[of fe "train_global_step s1"
                "foldl (\<lambda>x m. learn m x) x (drop (length (trace s0)) (trace s1))"]
  obtain x1 where
    tl: "tail fe (train_global_step s1)
           (foldl (\<lambda>x m. learn m x) x (drop (length (trace s0)) (trace s1))) = (x1, Inr ())"
    by (elim exE) (rule that)
  have nf: "True \<longrightarrow> fe \<notin> set [Suc fe..<N]" by simp
  from train_epochs_noskip[where dataloader = dataloader and mp = mp and rs = rs and tail = tail
         and learn = learn and x = x1, OF A K len tails nf a1]
  obtain sR xR T2 where
    r2: "train_epochs a mp dataloader learn tail True fe rs [Suc fe..<N] (s1, x1) = Inr (sR, xR)"
    and t2: "trace sR = trace s1 @ T2"
    and b2: "map batch T2 = concat (map dataloader [Suc fe..<N])"
    and n2: "list_all (\<lambda>m. \<not> skipped m) T2"
    by (elim exE conjE) (rule that)
  have run: "train_epochs a mp dataloader learn tail True fe rs [fe..<N] (s0, x) = Inr (sR, xR)"
    unfolding es by (simp add: r1 tl r2)
  have tr: "trace sR = T1 @ T2" using t1 t2 s0t by simp
  have k1': "map skipped T1 = map (\<lambda>j. int j < rs) [0..<0 + length T1]"
    using k1 lT len(1)[of fe] by simp
  from filter_skipped_prefix[OF k1'] have
    f1: "filter skipped T1 = take (nat rs) T1" and f2: "filter (\<lambda>m. \<not> skipped m) T1 = drop (nat rs) T1"
    by simp_all
  have f3: "filter skipped T2 = []" and f4: "filter (\<lambda>m. \<not> skipped m) T2 = T2"
    using n2 by (simp_all add: list_all_iff filter_empty_conv filter_id_conv)
  have c1: "map batch (filter skipped (trace sR)) = take (nat rs) (dataloader fe)"
    unfolding tr using f1 f3 b1 by (simp add: take_map[symmetric])
  have c2: "map batch (filter (\<lambda>m. \<not> skipped m) (trace sR)) =
             drop (nat rs) (dataloader fe) @ concat (map dataloader [Suc fe..<N])"
    unfolding tr using f2 f4 b1 b2 by (simp add: drop_map[symmetric])
  have c3: "list_all (\<lambda>m. actions m = []) (filter skipped (trace sR))"
    unfolding tr using e1 f3 by (simp add: list_all_iff)
  show ?thesis
    by (rule exI[of _ sR], rule exI[of _ xR]) (intro conjI run[unfolded s0_def] c1 c3 c2)
qed

lemma uninterrupted_split:
  fixes dataloader :: "nat \<Rightarrow> 'b list"
  assumes A: "0 < gradient_accumulation_steps a" and K: "checkpointing_steps a \<noteq> 0"
      and len: "\<And>e. length (dataloader e) = len" "0 < len"
      and tails: "\<And>e g x. \<exists>x'. tail e g x = (x', Inr ())"
      and fe: "fe < N" and r: "r < len"
      and rA: "int r mod gradient_accumulation_steps a = 0"
  shows "\<exists>sU xU pre post.
           train_epochs a mp dataloader learn tail False 0 0 [0..<N]
             (\<lparr>accelerator_step = 0, train_global_step = 0, trace = []\<rparr>, x) = Inr (sU, xU) \<and>
           trace sU = pre @ post \<and>
           int (length (filter stepped pre)) =
             int fe * ((int len - 1) div gradient_accumulation_steps a + 1)
               + int r div gradient_accumulation_steps a \<and>
           (pre = [] \<or> stepped (last pre)) \<and>
           map batch post = drop r (dataloader fe) @ concat (map dataloader [Suc fe..<N])"
proof -
  let ?A = "gradient_accumulation_steps a"
  define s0 where "s0 = \<lparr>accelerator_step = 0, train_global_step = 0,
                           trace = [] :: 'b micro_step list\<rparr>"
  have s0t: "trace s0 = []" and s0g: "train_global_step s0 = 0" by (simp_all add: s0_def)
  have es: "[0..<N] = [0..<fe] @ fe # [Suc fe..<N]"
    using fe by (metis less_imp_le_nat upt_add_eq_append le0 le_add_diff_inverse upt_conv_Cons
        add.left_neutral)
  have nf: "False \<longrightarrow> (0::nat) \<notin> set [0..<fe]" by simp
  have a00: "accelerator_step s0 = 0" by (simp add: s0_def)
  from train_epochs_noskip[where dataloader = dataloader and mp = mp and rs = 0 and tail = tail
         and learn = learn and x = x, OF A K len tails nf a00]
  obtain s1 x1 T0 where
    r0: "train_epochs a mp dataloader learn tail False 0 0 [0..<fe] (s0, x) = Inr (s1, x1)"
    and t0: "trace s1 = trace s0 @ T0" and a1: "accelerator_step s1 = 0"
    and g0: "train_global_step s1 = train_global_step s0
               + int (length [0..<fe]) * ((int len - 1) div ?A + 1)"
    and c0: "train_global_step s1 = train_global_step s0 + int (length (filter stepped T0))"
    and l0: "[0..<fe] \<noteq> [] \<longrightarrow> T0 \<noteq> [] \<and> stepped (last T0)"
    and b0: "map batch T0 = concat (map dataloader [0..<fe])"
    by (elim exE conjE) (rule that)
  let ?bs = "dataloader fe"
  have lb: "length ?bs = len" by (rule len(1))
  obtain y ys where dr: "drop r ?bs = y # ys" using r lb by (cases "drop r ?bs") auto
  have bs: "?bs = take r ?bs @ y # ys" using dr by (metis append_take_drop_id)
  have lt: "length (take r ?bs) = r" using r lb by simp
  from train_inner_noskip[OF A K, of mp 0 0 "take r ?bs" s1] obtain s2 T1 where
    r1: "train_inner a mp False 0 0 (take r ?bs) s1 = Inr s2" and t1: "trace s2 = trace s1 @ T1"
    and b1: "map batch T1 = take r ?bs"
    and a2: "accelerator_step s2 = accelerator_step s1 + int (length (take r ?bs))"
    and g1: "train_global_step s2 = train_global_step s1
               + (accelerator_step s1 mod ?A + int (length (take r ?bs))) div ?A"
    and c1: "train_global_step s2 = train_global_step s1 + int (length (filter stepped T1))"
    and l1: "take r ?bs \<noteq> [] \<and> (accelerator_step s1 + int (length (take r ?bs))) mod ?A = 0
               \<longrightarrow> stepped (last T1)"
    by (elim exE conjE) (rule that)
  from train_batches_trace[OF A K, of mp False 0 "0 + length (take r ?bs)" "y # ys" s2]
  obtain s3 T2 where
    r2: "train_batches a mp False 0 (0 + length (take r ?bs)) (y # ys) s2 = Inr s3"
    and t2: "trace s3 = trace s2 @ T2" and b2: "map batch T2 = y # ys"
    and a3: "accelerator_step s3 = 0"
    by auto
  have ep: "train_batches a mp False 0 0 ?bs s1 = Inr s3"
    by (subst bs, subst train_batches_split) (simp only: r1 sum.case r2)
  from tails[of fe "train_global_step s3"
                "foldl (\<lambda>x m. learn m x) x1 (drop (length (trace s1)) (trace s3))"]
  obtain x3 where
    tl: "tail fe (train_global_step s3)
           (foldl (\<lambda>x m. learn m x) x1 (drop (length (trace s1)) (trace s3))) = (x3, Inr ())"
    by (elim exE) (rule that)
  have nf2: "False \<longrightarrow> 0 \<notin> set [Suc fe..<N]" by simp
  from train_epochs_noskip[where dataloader = dataloader and mp = mp and rs = 0 and tail = tail
         and learn = learn and x = x3, OF A K len tails nf2 a3]
  obtain sU xU T3 where
    r3: "train_epochs a mp dataloader learn tail False 0 0 [Suc fe..<N] (s3, x3) = Inr (sU, xU)"
    and t3: "trace sU = trace s3 @ T3"
    and b3: "map batch T3 = concat (map dataloader [Suc fe..<N])"
    by (elim exE conjE) (rule that)
  have step: "train_epochs a mp dataloader learn tail False 0 0 (fe # [Suc fe..<N]) (s1, x1) =
                Inr (sU, xU)"
    by (simp add: ep tl r3)
  have run: "train_epochs a mp dataloader learn tail False 0 0 [0..<N] (s0, x) = Inr (sU, xU)"
    by (subst es, subst train_epochs_append) (simp only: r0 sum.case step)
  have tr: "trace sU = (T0 @ T1) @ (T2 @ T3)" using t0 t1 t2 t3 s0t by simp
  have cnt: "int (length (filter stepped (T0 @ T1))) =
               int fe * ((int len - 1) div ?A + 1) + int r div ?A"
  proof -
    have "int (length (filter stepped (T0 @ T1))) = train_global_step s2" using c0 c1 s0g by simp
    also have "\<dots> = int fe * ((int len - 1) div ?A + 1) + int r div ?A"
      using g0 g1 a1 lt s0g by simp
    finally show ?thesis .
  qed
  have lst: "T0 @ T1 = [] \<or> stepped (last (T0 @ T1))"
  proof (cases "T1 = []")
    case True
    show ?thesis
    proof (cases "fe = 0")
      case z: True
      then have "T0 = []" using b0 by simp
      then show ?thesis using True by simp
    next
      case False
      then show ?thesis using l0 True by simp
    qed
  next
    case False
    then have "take r ?bs \<noteq> []" using b1 by (metis map_is_Nil_conv)
    moreover have "(accelerator_step s1 + int (length (take r ?bs))) mod ?A = 0"
      using a1 lt rA by simp
    ultimately show ?thesis using l1 False by simp
  qed
  have bp: "map batch (T2 @ T3) = drop r ?bs @ concat (map dataloader [Suc fe..<N])"
    using b2 b3 dr by simp
  show ?thesis
    by (rule exI[of _ sU], rule exI[of _ xU], rule exI[of _ "T0 @ T1"], rule exI[of _ "T2 @ T3"])
       (intro conjI run[unfolded s0_def] tr cnt lst bp)
qed

lemma uninterrupted_whole:
  fixes dataloader :: "nat \<Rightarrow> 'b list"
  assumes A: "0 < gradient_accumulation_steps a" and K: "checkpointing_steps a \<noteq> 0"
      and len: "\<And>e. length (dataloader e) = len" "0 < len"
      and tails: "\<And>e g x. \<exists>x'. tail e g x = (x', Inr ())"
  shows "\<exists>sU xU.
           train_epochs a mp dataloader learn tail False 0 0 [0..<N]
             (\<lparr>accelerator_step = 0, train_global_step = 0, trace = []\<rparr>, x) = Inr (sU, xU) \<and>
           int (length (filter stepped (trace sU))) =
             int N * ((int len - 1) div gradient_accumulation_steps a + 1) \<and>
           (trace sU = [] \<or> stepped (last (trace sU)))"
proof -
  let ?A = "gradient_accumulation_steps a"
  define s0 where "s0 = \<lparr>accelerator_step = 0, train_global_step = 0,
                           trace = [] :: 'b micro_step list\<rparr>"
  have s0t: "trace s0 = []" and s0g: "train_global_step s0 = 0" by (simp_all add: s0_def)
  have nf: "False \<longrightarrow> 0 \<notin> set [0..<N]" by simp
  have a00: "accelerator_step s0 = 0" by (simp add: s0_def)
  from train_epochs_noskip[where dataloader = dataloader and mp = mp and rs = 0 and tail = tail
         and learn = learn and x = x, OF A K len tails nf a00]
  obtain sU xU T0 where
    r0: "train_epochs a mp dataloader learn tail False 0 0 [0..<N] (s0, x) = Inr (sU, xU)"
    and t0: "trace sU = trace s0 @ T0"
    and g0: "train_global_step sU = train_global_step s0
               + int (length [0..<N]) * ((int len - 1) div ?A + 1)"
    and c0: "train_global_step sU = train_global_step s0 + int (length (filter stepped T0))"
    and l0: "[0..<N] \<noteq> [] \<longrightarrow> T0 \<noteq> [] \<and> stepped (last T0)"
    and b0: "map batch T0 = concat (map dataloader [0..<N])"
    by (elim exE conjE) (rule that)
  have tr: "trace sU = T0" using t0 s0t by simp
  have cnt: "int (length (filter stepped (trace sU))) = int N * ((int len - 1) div ?A + 1)"
    unfolding tr using g0 c0 by simp
  have lst: "trace sU = [] \<or> stepped (last (trace sU))"
  proof (cases "N = 0")
    case True
    then have "T0 = []" using b0 by simp
    then show ?thesis using tr by simp
  next
    case False
    then show ?thesis using l0 tr by simp
  qed
  show ?thesis by (rule exI[of _ sU], rule exI[of _ xU]) (intro conjI r0[unfolded s0_def] cnt lst)
qed

lemma consumed_from:
  "fe < N \<Longrightarrow>
   concat (map (\<lambda>e. if e = fe then drop r (dl e) else dl e) [fe..<N]) =
     drop r (dl fe) @ concat (map dl [Suc fe..<N])"
proof -
  assume fe: "fe < N"
  have es: "[fe..<N] = fe # [Suc fe..<N]" using fe by (simp add: upt_conv_Cons)
  have m: "map (\<lambda>e. if e = fe then drop r (dl e) else dl e) [Suc fe..<N] = map dl [Suc fe..<N]"
    by (rule map_cong) auto
  show ?thesis unfolding es by (simp only: list.map concat.simps refl if_True m)
qed

lemma split_sep_no_sep: "p \<in> set (split_sep c s) \<Longrightarrow> c \<notin> set p"
proof (induction s arbitrary: p)
  case Nil
  then show ?case by simp
next
  case (Cons x xs)
  show ?case
  proof (cases "x = c")
    case True
    then show ?thesis using Cons by auto
  next
    case False
    then show ?thesis using Cons by (cases "split_sep c xs") auto
  qed
qed

lemma digits_value_nonneg: "list_all is_digit ds \<Longrightarrow> 0 \<le> digits_value ds"
proof -
  have "list_all is_digit ds \<Longrightarrow> 0 \<le> acc \<Longrightarrow>
        0 \<le> foldl (\<lambda>a c. 10 * a + (int (of_char c) - 48)) acc ds" for acc :: int
  proof (induction ds arbitrary: acc)
    case Nil
    then show ?case by simp
  next
    case (Cons d ds)
    from Cons.prems(1) have "48 \<le> (of_char d :: nat)" by (simp add: is_digit_def Let_def)
    then have "0 \<le> 10 * acc + (int (of_char d) - 48)" using Cons.prems(2) by simp
    then show ?case using Cons by simp
  qed
  from this[of 0] show "list_all is_digit ds \<Longrightarrow> 0 \<le> digits_value ds"
    by (simp add: digits_value_def)
qed

lemma set_strip: "set (strip s) \<subseteq> set s"
proof -
  have "set (strip s) \<subseteq> set (dropWhile is_space s)"
    unfolding strip_def using set_dropWhileD by fastforce
  also have "\<dots> \<subseteq> set s" using set_dropWhileD by fastforce
  finally show ?thesis .
qed

lemma py_int_nonneg:
  assumes "CHR ''-'' \<notin> set s" "py_int s = Inr g"
  shows "0 \<le> g"
proof -
  define t where "t = strip s"
  define body where "body = (case t of [] \<Rightarrow> [] | c # r \<Rightarrow> if c = CHR ''-'' \<or> c = CHR ''+'' then r else t)"
  define groups where "groups = split_sep (CHR ''_'') body"
  have nt: "CHR ''-'' \<notin> set t" using assms(1) set_strip[of s] by (auto simp: t_def)
  then have neg: "(case t of [] \<Rightarrow> False | c # r \<Rightarrow> c = CHR ''-'') = False"
    by (cases t) auto
  from assms(2) have ok: "list_all (\<lambda>g. g \<noteq> [] \<and> list_all is_digit g) groups"
    and g: "g = digits_value (concat groups)"
    unfolding py_int_def Let_def t_def[symmetric] body_def[symmetric] groups_def[symmetric] neg
    by (simp_all split: if_splits)
  have "list_all is_digit (concat groups)" using ok by (induction groups) auto
  then show ?thesis using g digits_value_nonneg by simp
qed

lemma checkpoint_step_nonneg: "checkpoint_step x = Inr g \<Longrightarrow> 0 \<le> g"
proof -
  assume cs: "checkpoint_step x = Inr g"
  then obtain p n ps where sp: "split_sep (CHR ''-'') x = p # n # ps" and pi: "py_int n = Inr g"
    by (auto simp: checkpoint_step_def split: list.splits)
  have "n \<in> set (split_sep (CHR ''-'') x)" using sp by simp
  then have "CHR ''-'' \<notin> set n" by (rule split_sep_no_sep)
  then show ?thesis using pi by (rule py_int_nonneg)
qed

lemma resume_loaded:
  assumes "resume load_state listing output_dir rfc accum nupe = Inr r" "loaded_from r \<noteq> None"
  shows "0 \<le> global_step r \<and> first_epoch r = global_step r div nupe \<and>
         resume_step r = Some ((global_step r * accum) mod (nupe * accum))"
proof -
  from assms obtain path where
      cs: "checkpoint_step path = Inr (global_step r)"
    and fe: "first_epoch r = global_step r div nupe"
    and rs: "resume_step r = Some ((global_step r * accum) mod (nupe * accum))"
    by (auto simp: resume_def Let_def split: option.splits if_splits sum.splits)
  from checkpoint_step_nonneg[OF cs] fe rs show ?thesis by simp
qed

text \<open>
  C4, as the code has it. The uninterrupted run and the resumed run each have their own
  dataloader: \<open>dlU e\<close> and \<open>dlR e\<close> are the batches the two yield in epoch \<open>e\<close>, in
  their order. Every epoch has \<open>len > 0\<close> batches, the checkpoint's step count \<open>G\<close> is
  one the run can reach, and the blocks after each epoch return. Then both runs return.
  The resumed run skips exactly \<^verbatim>\<open>resume_step\<close> batches, the first ones its own
  dataloader yields in its first epoch, and does nothing with them (no forward pass, no
  backward pass, no optimizer step); it then consumes the rest of that epoch and the
  later epochs as its own dataloader yields them. The uninterrupted run's trace splits
  into a part that ends with its \<open>G\<close>-th optimization step and a rest that consumes, of
  its own dataloader, the first resumed epoch from position \<^verbatim>\<open>resume_step\<close> on and
  the later epochs. So the two consume the same batches in the same order when the two
  dataloaders yield the same order in these epochs; nothing in the loop makes them.
\<close>

theorem resumed_run_continues:
  fixes dlU dlR :: "nat \<Rightarrow> 'b list"
  assumes A: "0 < gradient_accumulation_steps a" and K: "checkpointing_steps a \<noteq> 0"
      and lenU: "\<And>e. length (dlU e) = len" and lenR: "\<And>e. length (dlR e) = len"
      and lpos: "0 < len"
      and nupe: "num_update_steps_per_epoch (int len) (gradient_accumulation_steps a) = Inr nupe"
      and res: "resume load_state listing output_dir rfc (gradient_accumulation_steps a) nupe = Inr r"
      and ld: "loaded_from r \<noteq> None"
      and reach: "global_step r \<le> num_epochs a * nupe"
      and tails: "\<And>e g x. \<exists>x'. after_epoch a mp eval_losses pipeline noise_scheduler manual_seed
                              log_images save_pretrained push e g x = (x', Inr ())"
  shows "\<exists>sU xU' sR xR' pre post rstep.
           resume_step r = Some rstep \<and>
           train a mp dlU learn eval_losses pipeline noise_scheduler manual_seed log_images
             save_pretrained push False 0 0 0 xU = Inr (sU, xU') \<and>
           train a mp dlR learn eval_losses pipeline noise_scheduler manual_seed log_images
             save_pretrained push True (nat (first_epoch r)) rstep (global_step r) xR
             = Inr (sR, xR') \<and>
           map batch (filter skipped (trace sR)) = take (nat rstep) (dlR (nat (first_epoch r))) \<and>
           int (length (filter skipped (trace sR))) = rstep \<and>
           list_all (\<lambda>m. actions m = []) (filter skipped (trace sR)) \<and>
           map batch (filter (\<lambda>m. \<not> skipped m) (trace sR)) =
             concat (map (\<lambda>e. if e = nat (first_epoch r) then drop (nat rstep) (dlR e) else dlR e)
                       [nat (first_epoch r)..<nat (num_epochs a)]) \<and>
           trace sU = pre @ post \<and>
           int (length (filter stepped pre)) = global_step r \<and>
           (pre = [] \<or> stepped (last pre)) \<and>
           map batch post =
             concat (map (\<lambda>e. if e = nat (first_epoch r) then drop (nat rstep) (dlU e) else dlU e)
                       [nat (first_epoch r)..<nat (num_epochs a)]) \<and>
           ((\<forall>e. nat (first_epoch r) \<le> e \<and> e < nat (num_epochs a) \<longrightarrow> dlR e = dlU e) \<longrightarrow>
              map batch (filter (\<lambda>m. \<not> skipped m) (trace sR)) = map batch post)"
proof -
  let ?A = "gradient_accumulation_steps a"
  let ?G = "global_step r"
  let ?N = "nat (num_epochs a)"
  let ?tail = "after_epoch a mp eval_losses pipeline noise_scheduler manual_seed log_images
                 save_pretrained push"
  define rstep where "rstep = (?G * ?A) mod (nupe * ?A)"
  define fe where "fe = nat (first_epoch r)"
  from resume_loaded[OF res ld] have G0: "0 \<le> ?G" and fer: "first_epoch r = ?G div nupe"
    and rsr: "resume_step r = Some rstep" by (simp_all add: rstep_def)
  have il: "0 < int len" using lpos by simp
  have n': "nupe = (int len - 1) div ?A + 1"
    using nupe A ceil_div_steps[OF A il] by (simp add: num_update_steps_per_epoch_def)
  have np: "0 < nupe" unfolding n' using A il by (simp add: pos_imp_zdiv_nonneg_iff add_pos_nonneg)
  have rs_eq: "rstep = (?G mod nupe) * ?A"
    unfolding rstep_def using A by (simp add: mult_mod_left mult.commute)
  have m0: "0 \<le> ?G mod nupe" and m1: "?G mod nupe \<le> nupe - 1" using np by simp_all
  have rs0: "0 \<le> rstep" unfolding rs_eq using m0 A by simp
  have "rstep \<le> (nupe - 1) * ?A" unfolding rs_eq using m1 A by (intro mult_right_mono) simp_all
  also have "(nupe - 1) * ?A = ((int len - 1) div ?A) * ?A" by (simp add: n')
  also have "\<dots> \<le> int len - 1"
  proof -
    have "((int len - 1) div ?A) * ?A = (int len - 1) - (int len - 1) mod ?A"
      by (simp add: algebra_simps minus_mod_eq_mult_div[symmetric])
    moreover have "0 \<le> (int len - 1) mod ?A" using A by simp
    ultimately show ?thesis by linarith
  qed
  finally have rsl: "rstep < int len" by simp
  have rmod: "int (nat rstep) mod ?A = 0" using rs0 by (simp add: rs_eq)
  have rdiv: "int (nat rstep) div ?A = ?G mod nupe" using rs0 A by (simp add: rs_eq)
  have ife: "int fe = ?G div nupe"
    unfolding fe_def fer using G0 np by (simp add: pos_imp_zdiv_nonneg_iff)
  have cnt: "int fe * ((int len - 1) div ?A + 1) + int (nat rstep) div ?A = ?G"
    unfolding rdiv ife n'[symmetric] by (simp add: mult.commute)
  have "?G div nupe \<le> num_epochs a"
  proof -
    have "?G div nupe \<le> (num_epochs a * nupe) div nupe" using reach by (rule zdiv_mono1) (rule np)
    then show ?thesis using np by simp
  qed
  then have feN: "fe \<le> ?N" using ife by linarith
  have same: "concat (map (\<lambda>e. if e = fe then drop (nat rstep) (dlR e) else dlR e) [fe..<?N]) =
              concat (map (\<lambda>e. if e = fe then drop (nat rstep) (dlU e) else dlU e) [fe..<?N])"
    if eq: "\<forall>e. fe \<le> e \<and> e < ?N \<longrightarrow> dlR e = dlU e"
  proof -
    have "map (\<lambda>e. if e = fe then drop (nat rstep) (dlR e) else dlR e) [fe..<?N] =
          map (\<lambda>e. if e = fe then drop (nat rstep) (dlU e) else dlU e) [fe..<?N]"
      by (rule map_cong) (use eq in auto)
    then show ?thesis by (simp only:)
  qed
  show ?thesis
  proof (cases "fe < ?N")
    case True
    from resumed_trace[where dataloader = dlR and tail = ?tail and learn = learn and mp = mp
           and g = ?G and x = xR, OF A K lenR lpos tails True rs0 rsl]
    obtain sR xR' where
      rr0: "train_epochs a mp dlR learn ?tail True fe rstep [fe..<?N]
              (\<lparr>accelerator_step = 0, train_global_step = ?G, trace = []\<rparr>, xR) = Inr (sR, xR')"
      and sk: "map batch (filter skipped (trace sR)) = take (nat rstep) (dlR fe)"
      and na: "list_all (\<lambda>m. actions m = []) (filter skipped (trace sR))"
      and pr0: "map batch (filter (\<lambda>m. \<not> skipped m) (trace sR)) =
                 drop (nat rstep) (dlR fe) @ concat (map dlR [Suc fe..<?N])"
      by (elim exE conjE) (rule that)
    have rl: "nat rstep < len" using rsl rs0 by linarith
    from uninterrupted_split[where dataloader = dlU and tail = ?tail and learn = learn and mp = mp
           and x = xU, OF A K lenU lpos tails True rl rmod]
    obtain sU xU' pre post where
      ru0: "train_epochs a mp dlU learn ?tail False 0 0 [0..<?N]
              (\<lparr>accelerator_step = 0, train_global_step = 0, trace = []\<rparr>, xU) = Inr (sU, xU')"
      and tr: "trace sU = pre @ post"
      and c: "int (length (filter stepped pre)) =
                int fe * ((int len - 1) div ?A + 1) + int (nat rstep) div ?A"
      and l: "pre = [] \<or> stepped (last pre)"
      and bp0: "map batch post = drop (nat rstep) (dlU fe) @ concat (map dlU [Suc fe..<?N])"
      by (elim exE conjE) (rule that)
    have ru: "train a mp dlU learn eval_losses pipeline noise_scheduler manual_seed log_images
                save_pretrained push False 0 0 0 xU = Inr (sU, xU')"
      unfolding train_def using ru0 by simp
    have rr: "train a mp dlR learn eval_losses pipeline noise_scheduler manual_seed log_images
                save_pretrained push True fe rstep ?G xR = Inr (sR, xR')"
      unfolding train_def by (rule rr0)
    have "length (map batch (filter skipped (trace sR))) = nat rstep"
      unfolding sk using rl lenR[of fe] by simp
    then have ls: "int (length (filter skipped (trace sR))) = rstep" using rs0 by simp
    have pr: "map batch (filter (\<lambda>m. \<not> skipped m) (trace sR)) =
                concat (map (\<lambda>e. if e = fe then drop (nat rstep) (dlR e) else dlR e) [fe..<?N])"
      unfolding consumed_from[OF True] by (rule pr0)
    have bp: "map batch post =
                concat (map (\<lambda>e. if e = fe then drop (nat rstep) (dlU e) else dlU e) [fe..<?N])"
      unfolding consumed_from[OF True] by (rule bp0)
    have c': "int (length (filter stepped pre)) = ?G" using c cnt by simp
    have eqv: "(\<forall>e. fe \<le> e \<and> e < ?N \<longrightarrow> dlR e = dlU e) \<longrightarrow>
                 map batch (filter (\<lambda>m. \<not> skipped m) (trace sR)) = map batch post"
      unfolding pr bp using same by blast
    show ?thesis
      unfolding fe_def[symmetric]
      by (rule exI[of _ sU], rule exI[of _ xU'], rule exI[of _ sR], rule exI[of _ xR'],
          rule exI[of _ pre], rule exI[of _ post], rule exI[of _ rstep])
         (intro conjI rsr ru rr sk ls na pr tr c' l bp eqv)
  next
    case False
    then have e: "fe = ?N" using feN by simp
    have "?G \<le> (?G div nupe) * nupe"
    proof -
      have "0 \<le> num_epochs a"
      proof (rule ccontr)
        assume "\<not> 0 \<le> num_epochs a"
        then have "num_epochs a * nupe < 0" using np by (simp add: mult_neg_pos)
        then show False using reach G0 by simp
      qed
      then have "int ?N = num_epochs a" by simp
      then have "num_epochs a = ?G div nupe" using e ife by simp
      then show ?thesis using reach by simp
    qed
    then have "?G mod nupe = 0" using m0 by (simp add: algebra_simps minus_mod_eq_mult_div[symmetric] mult.commute)
    then have rz: "rstep = 0" by (simp add: rs_eq)
    from uninterrupted_whole[where dataloader = dlU and tail = ?tail and learn = learn and mp = mp
           and x = xU and N = ?N, OF A K lenU lpos tails]
    obtain sU xU' where
      ru0: "train_epochs a mp dlU learn ?tail False 0 0 [0..<?N]
              (\<lparr>accelerator_step = 0, train_global_step = 0, trace = []\<rparr>, xU) = Inr (sU, xU')"
      and c: "int (length (filter stepped (trace sU))) = int ?N * ((int len - 1) div ?A + 1)"
      and l: "trace sU = [] \<or> stepped (last (trace sU))"
      by (elim exE conjE) (rule that)
    have ru: "train a mp dlU learn eval_losses pipeline noise_scheduler manual_seed log_images
                save_pretrained push False 0 0 0 xU = Inr (sU, xU')"
      unfolding train_def using ru0 by simp
    define sR where "sR = \<lparr>accelerator_step = 0, train_global_step = ?G,
                           trace = [] :: 'b micro_step list\<rparr>"
    have sRt: "trace sR = []" by (simp add: sR_def)
    have emp: "[fe..<?N] = []" using e by simp
    have rr: "train a mp dlR learn eval_losses pipeline noise_scheduler manual_seed log_images
                save_pretrained push True fe rstep ?G xR = Inr (sR, xR)"
      unfolding train_def emp by (simp add: sR_def)
    have c': "int (length (filter stepped (trace sU))) = ?G"
      using c cnt rz e by simp
    have sk: "map batch (filter skipped (trace sR)) = take (nat rstep) (dlR fe)"
      by (simp add: sRt rz)
    have ls: "int (length (filter skipped (trace sR))) = rstep" by (simp add: sRt rz)
    have na: "list_all (\<lambda>m. actions m = []) (filter skipped (trace sR))" by (simp add: sRt)
    have pr: "map batch (filter (\<lambda>m. \<not> skipped m) (trace sR)) =
                concat (map (\<lambda>e. if e = fe then drop (nat rstep) (dlR e) else dlR e) [fe..<?N])"
      unfolding emp by (simp add: sRt)
    have tr: "trace sU = trace sU @ []" by simp
    have bp: "map batch [] =
                concat (map (\<lambda>e. if e = fe then drop (nat rstep) (dlU e) else dlU e) [fe..<?N])"
      unfolding emp by simp
    have eqv: "(\<forall>e. fe \<le> e \<and> e < ?N \<longrightarrow> dlR e = dlU e) \<longrightarrow>
                 map batch (filter (\<lambda>m. \<not> skipped m) (trace sR)) = map batch []"
      by (simp add: sRt)
    show ?thesis
      unfolding fe_def[symmetric]
      by (rule exI[of _ sU], rule exI[of _ xU'], rule exI[of _ sR], rule exI[of _ xR],
          rule exI[of _ "trace sU"], rule exI[of _ "[]"], rule exI[of _ rstep])
         (intro conjI rsr ru rr sk ls na pr tr c' l bp eqv)
  qed
qed

text \<open>The theorem on two epochs of five batches with accumulation factor 2, both
  dataloaders yielding the same order, resumed from \<^verbatim>\<open>checkpoint-4\<close>: the resumed
  run starts in epoch 1, skips the batches 10 and 11 and consumes 12, 13 and 14, the
  batches the uninterrupted run consumes after its fourth optimization step.\<close>

theorem resumed_run_continues_witness:
  "map batch (filter skipped (trace (fst (projr (train
      \<lparr>gradient_accumulation_steps = 2, use_ema = True, checkpointing_steps = 500,
        num_epochs = 2, save_images_epochs = 1, save_model_epochs = 1, eval_batch_size = 4,
        ddpm_num_inference_steps = 10, push_to_hub = False, evaluate = False\<rparr>
      True (\<lambda>e. map (\<lambda>j. 10 * e + j) [0..<5]) (\<lambda>m x. x) (\<lambda>p r. (Inr [], r))
      (\<lambda>p c s r b n. (Inr (p + s), r)) () (\<lambda>seed. seed) (\<lambda>i e g. True) (\<lambda>p c. True) True
      True 1 2 4
      \<lparr>weights = \<lparr>live = (1::int), shadow_params = 2, temp_stored_params = None\<rparr>,
        torch_rng = (5::int)\<rparr>))))) = [10, 11] \<and>
   (\<exists>pre post.
      trace (fst (projr (train
        \<lparr>gradient_accumulation_steps = 2, use_ema = True, checkpointing_steps = 500,
          num_epochs = 2, save_images_epochs = 1, save_model_epochs = 1, eval_batch_size = 4,
          ddpm_num_inference_steps = 10, push_to_hub = False, evaluate = False\<rparr>
        True (\<lambda>e. map (\<lambda>j. 10 * e + j) [0..<5]) (\<lambda>m x. x) (\<lambda>p r. (Inr [], r))
        (\<lambda>p c s r b n. (Inr (p + s), r)) () (\<lambda>seed. seed) (\<lambda>i e g. True) (\<lambda>p c. True) True
        False 0 0 0
        \<lparr>weights = \<lparr>live = (1::int), shadow_params = 2, temp_stored_params = None\<rparr>,
          torch_rng = (5::int)\<rparr>))) = pre @ post \<and>
      int (length (filter stepped pre)) = 4 \<and>
      map batch post = [12, 13, 14] \<and>
      map batch (filter (\<lambda>m. \<not> skipped m) (trace (fst (projr (train
        \<lparr>gradient_accumulation_steps = 2, use_ema = True, checkpointing_steps = 500,
          num_epochs = 2, save_images_epochs = 1, save_model_epochs = 1, eval_batch_size = 4,
          ddpm_num_inference_steps = 10, push_to_hub = False, evaluate = False\<rparr>
        True (\<lambda>e. map (\<lambda>j. 10 * e + j) [0..<5]) (\<lambda>m x. x) (\<lambda>p r. (Inr [], r))
        (\<lambda>p c s r b n. (Inr (p + s), r)) () (\<lambda>seed. seed) (\<lambda>i e g. True) (\<lambda>p c. True) True
        True 1 2 4
        \<lparr>weights = \<lparr>live = (1::int), shadow_params = 2, temp_stored_params = None\<rparr>,
          torch_rng = (5::int)\<rparr>))))) = map batch post)"
proof -
  let ?a = "\<lparr>gradient_accumulation_steps = 2, use_ema = True, checkpointing_steps = 500,
        num_epochs = 2, save_images_epochs = 1, save_model_epochs = 1, eval_batch_size = 4,
        ddpm_num_inference_steps = 10, push_to_hub = False, evaluate = False\<rparr>"
  let ?dl = "\<lambda>e::nat. map (\<lambda>j. 10 * e + j) [0..<5]"
  let ?learn = "\<lambda>(m :: nat micro_step) (x :: (int, int) world). x"
  let ?ev = "\<lambda>(p::int) (r::int). (Inr [] :: py_error + real list, r)"
  let ?pl = "\<lambda>(p::int) (c::unit) (s::int) (r::int) (b::int) (n::int). (Inr (p + s) :: py_error + int, r)"
  let ?ms = "\<lambda>seed::int. seed"
  let ?li = "\<lambda>(i::int) (e::int) (g::int). True"
  let ?sp = "\<lambda>(p::int) (c::unit). True"
  let ?x = "\<lparr>weights = \<lparr>live = (1::int), shadow_params = 2, temp_stored_params = None\<rparr>,
             torch_rng = (5::int)\<rparr>"
  let ?r = "\<lparr>global_step = 4, first_epoch = 1, resume_step = Some 2,
             resume_from_checkpoint = Some ''checkpoint-4'',
             loaded_from = Some ''out/checkpoint-4'',
             printed = [''Resuming from checkpoint checkpoint-4'']\<rparr>"
  have A: "0 < gradient_accumulation_steps ?a" and K: "checkpointing_steps ?a \<noteq> 0" by simp_all
  have len: "\<And>e. length (?dl e) = 5" and lpos: "0 < (5::nat)" by simp_all
  have nupe: "num_update_steps_per_epoch (int 5) (gradient_accumulation_steps ?a) = Inr 3"
    by (simp add: num_update_steps_per_epoch_def)
  have rs0: "resume (\<lambda>_. True) [] ''out'' (Some ''checkpoint-4'') 2 3 = Inr ?r" by code_simp
  have res: "resume (\<lambda>_. True) [] ''out'' (Some ''checkpoint-4'') (gradient_accumulation_steps ?a) 3 = Inr ?r"
    using rs0 by simp
  have ld: "loaded_from ?r \<noteq> None" by simp
  have reach: "global_step ?r \<le> num_epochs ?a * 3" by simp
  have tails: "\<exists>x'. after_epoch ?a True ?ev ?pl () ?ms ?li ?sp True e g x = (x', Inr ())" for e g x
    by (simp add: after_epoch_def evaluation_def end_of_epoch_def sample_images_def save_model_def
        store_def copy_to_def restore_def Let_def)
  from resumed_run_continues
         [where a = ?a and mp = True and dlU = ?dl and dlR = ?dl and learn = ?learn
            and eval_losses = ?ev and pipeline = ?pl and noise_scheduler = "()"
            and manual_seed = ?ms and log_images = ?li and save_pretrained = ?sp and push = True
            and xU = ?x and xR = ?x,
          OF A K len len lpos nupe res ld reach tails]
  obtain sU xU' sR xR' pre post rstep where
    rs: "resume_step ?r = Some rstep"
    and ru: "train ?a True ?dl ?learn ?ev ?pl () ?ms ?li ?sp True False 0 0 0 ?x = Inr (sU, xU')"
    and rr: "train ?a True ?dl ?learn ?ev ?pl () ?ms ?li ?sp True True (nat (first_epoch ?r)) rstep
               (global_step ?r) ?x = Inr (sR, xR')"
    and sk: "map batch (filter skipped (trace sR)) = take (nat rstep) (?dl (nat (first_epoch ?r)))"
    and tr: "trace sU = pre @ post"
    and c: "int (length (filter stepped pre)) = global_step ?r"
    and bp: "map batch post =
               concat (map (\<lambda>e. if e = nat (first_epoch ?r) then drop (nat rstep) (?dl e) else ?dl e)
                         [nat (first_epoch ?r)..<nat (num_epochs ?a)])"
    and eqv: "(\<forall>e. nat (first_epoch ?r) \<le> e \<and> e < nat (num_epochs ?a) \<longrightarrow> ?dl e = ?dl e) \<longrightarrow>
                map batch (filter (\<lambda>m. \<not> skipped m) (trace sR)) = map batch post"
    by (elim exE conjE) (rule that)
  have r2: "rstep = 2" using rs by simp
  have rr': "train ?a True ?dl ?learn ?ev ?pl () ?ms ?li ?sp True True 1 2 4 ?x = Inr (sR, xR')"
    using rr r2 by simp
  have sk': "map batch (filter skipped (trace sR)) = [10, 11]"
    using sk r2 by (simp add: upt_rec numeral_2_eq_2)
  have bp': "map batch post = [12, 13, 14]"
    unfolding bp r2 by (simp add: upt_rec numeral_2_eq_2)
  have eq: "map batch (filter (\<lambda>m. \<not> skipped m) (trace sR)) = map batch post"
    using eqv by simp
  have "\<exists>pre post. trace sU = pre @ post \<and> int (length (filter stepped pre)) = 4 \<and>
          map batch post = [12, 13, 14] \<and>
          map batch (filter (\<lambda>m. \<not> skipped m) (trace sR)) = map batch post"
    using tr c bp' eq by (intro exI[of _ pre] exI[of _ post]) simp
  then show ?thesis unfolding ru rr' using sk' by simp
qed

text \<open>
  C4 as the specification words it, the resumed run consuming the batches the
  uninterrupted run would consume after optimizer step \<open>G\<close>, fails when the two
  dataloaders shuffle differently, as the unseeded \<^verbatim>\<open>shuffle=True\<close> of line 592 lets
  them. One epoch of five batches, accumulation factor 1, resumed from
  \<^verbatim>\<open>checkpoint-2\<close>: the uninterrupted run, whose dataloader yields 3, 4, 1, 2, 0, has
  made two optimization steps after its first two batches and then consumes 1, 2, 0; the
  resumed run, whose dataloader yields 2, 4, 1, 0, 3, skips 2 and 4, which the other run
  has not consumed by then, and consumes 1, 0, 3.
\<close>

theorem resumed_other_order_counterexample:
  "resume (\<lambda>_. True) [] ''out'' (Some ''checkpoint-2'') 1 5 =
     Inr \<lparr>global_step = 2, first_epoch = 0, resume_step = Some 2,
          resume_from_checkpoint = Some ''checkpoint-2'',
          loaded_from = Some ''out/checkpoint-2'',
          printed = [''Resuming from checkpoint checkpoint-2'']\<rparr> \<and>
   map (\<lambda>m. (batch m, stepped m)) (trace (fst (projr (train
      \<lparr>gradient_accumulation_steps = 1, use_ema = True, checkpointing_steps = 500,
        num_epochs = 1, save_images_epochs = 1, save_model_epochs = 1, eval_batch_size = 4,
        ddpm_num_inference_steps = 10, push_to_hub = False, evaluate = False\<rparr>
      True (\<lambda>e. [3, 4, 1, 2, 0 :: nat]) (\<lambda>m x. x) (\<lambda>p r. (Inr [], r))
      (\<lambda>p c s r b n. (Inr (p + s), r)) () (\<lambda>seed. seed) (\<lambda>i e g. True) (\<lambda>p c. True) True
      False 0 0 0
      \<lparr>weights = \<lparr>live = (1::int), shadow_params = 2, temp_stored_params = None\<rparr>,
        torch_rng = (5::int)\<rparr>)))) =
     [(3, True), (4, True), (1, True), (2, True), (0, True)] \<and>
   map (\<lambda>m. (batch m, skipped m)) (trace (fst (projr (train
      \<lparr>gradient_accumulation_steps = 1, use_ema = True, checkpointing_steps = 500,
        num_epochs = 1, save_images_epochs = 1, save_model_epochs = 1, eval_batch_size = 4,
        ddpm_num_inference_steps = 10, push_to_hub = False, evaluate = False\<rparr>
      True (\<lambda>e. [2, 4, 1, 0, 3 :: nat]) (\<lambda>m x. x) (\<lambda>p r. (Inr [], r))
      (\<lambda>p c s r b n. (Inr (p + s), r)) () (\<lambda>seed. seed) (\<lambda>i e g. True) (\<lambda>p c. True) True
      True 0 2 2
      \<lparr>weights = \<lparr>live = (1::int), shadow_params = 2, temp_stored_params = None\<rparr>,
        torch_rng = (5::int)\<rparr>)))) =
     [(2, True), (4, True), (1, False), (0, False), (3, False)] \<and>
   map batch (filter (\<lambda>m. \<not> skipped m) (trace (fst (projr (train
      \<lparr>gradient_accumulation_steps = 1, use_ema = True, checkpointing_steps = 500,
        num_epochs = 1, save_images_epochs = 1, save_model_epochs = 1, eval_batch_size = 4,
        ddpm_num_inference_steps = 10, push_to_hub = False, evaluate = False\<rparr>
      True (\<lambda>e. [2, 4, 1, 0, 3 :: nat]) (\<lambda>m x. x) (\<lambda>p r. (Inr [], r))
      (\<lambda>p c s r b n. (Inr (p + s), r)) () (\<lambda>seed. seed) (\<lambda>i e g. True) (\<lambda>p c. True) True
      True 0 2 2
      \<lparr>weights = \<lparr>live = (1::int), shadow_params = 2, temp_stored_params = None\<rparr>,
        torch_rng = (5::int)\<rparr>))))) = [1, 0, 3] \<and>
   length (filter stepped (take 2 (trace (fst (projr (train
      \<lparr>gradient_accumulation_steps = 1, use_ema = True, checkpointing_steps = 500,
        num_epochs = 1, save_images_epochs = 1, save_model_epochs = 1, eval_batch_size = 4,
        ddpm_num_inference_steps = 10, push_to_hub = False, evaluate = False\<rparr>
      True (\<lambda>e. [3, 4, 1, 2, 0 :: nat]) (\<lambda>m x. x) (\<lambda>p r. (Inr [], r))
      (\<lambda>p c s r b n. (Inr (p + s), r)) () (\<lambda>seed. seed) (\<lambda>i e g. True) (\<lambda>p c. True) True
      False 0 0 0
      \<lparr>weights = \<lparr>live = (1::int), shadow_params = 2, temp_stored_params = None\<rparr>,
        torch_rng = (5::int)\<rparr>)))))) = 2 \<and>
   map batch (drop 2 (trace (fst (projr (train
      \<lparr>gradient_accumulation_steps = 1, use_ema = True, checkpointing_steps = 500,
        num_epochs = 1, save_images_epochs = 1, save_model_epochs = 1, eval_batch_size = 4,
        ddpm_num_inference_steps = 10, push_to_hub = False, evaluate = False\<rparr>
      True (\<lambda>e. [3, 4, 1, 2, 0 :: nat]) (\<lambda>m x. x) (\<lambda>p r. (Inr [], r))
      (\<lambda>p c s r b n. (Inr (p + s), r)) () (\<lambda>seed. seed) (\<lambda>i e g. True) (\<lambda>p c. True) True
      False 0 0 0
      \<lparr>weights = \<lparr>live = (1::int), shadow_params = 2, temp_stored_params = None\<rparr>,
        torch_rng = (5::int)\<rparr>))))) = [1, 2, 0]"
proof -
  have r: "resume (\<lambda>_. True) [] ''out'' (Some ''checkpoint-2'') 1 5 =
     Inr \<lparr>global_step = 2, first_epoch = 0, resume_step = Some 2,
          resume_from_checkpoint = Some ''checkpoint-2'',
          loaded_from = Some ''out/checkpoint-2'',
          printed = [''Resuming from checkpoint checkpoint-2'']\<rparr>"
    by code_simp
  show ?thesis
    unfolding r
    by (simp add: train_def after_epoch_def evaluation_def end_of_epoch_def sample_images_def
        save_model_def store_def copy_to_def restore_def
        train_step_def do_sync_def optimizer_step_def lr_scheduler_step_def
        optimizer_zero_grad_def stepped_def Let_def upt_rec)
qed

end
